theory Spec2Isabelle
  imports Complex_Main "HOL-Library.Char_ord" "HOL-Library.List_Lexorder"
    "HOL-Library.Product_Lexorder" "HOL-Library.Multiset"
begin

section \<open>Values and dictionaries\<close>

text \<open>
  The orders of \<^verbatim>\<open>backend/api.py\<close> are Python dictionaries with string keys, read
  from a CSV sheet (every cell a string, or \<^verbatim>\<open>None\<close> for a short row) or from the JSON
  files the program writes. Their values are modelled by the JSON scalars. A float carries
  its value and, next to it, the text Python prints for it: the shortest-digits printing
  of \<^verbatim>\<open>repr\<close> is not modelled, and nothing below depends on the digits. Only finite
  floats are covered.
\<close>

datatype pyval =
    VNone
  | VBool bool
  | VInt int
  | VFloat rat string
  | VStr string

text \<open>Python truthiness, as \<^verbatim>\<open>if x:\<close>, \<^verbatim>\<open>x or y\<close> and \<^verbatim>\<open>bool(x)\<close> use it.\<close>

fun truthy :: "pyval \<Rightarrow> bool" where
  "truthy VNone = False"
| "truthy (VBool b) = b"
| "truthy (VInt n) = (n \<noteq> 0)"
| "truthy (VFloat r _) = (r \<noteq> 0)"
| "truthy (VStr s) = (s \<noteq> [])"

text \<open>\<^verbatim>\<open>x or y\<close>: the first operand when it is truthy, the second otherwise.\<close>

definition py_or :: "pyval \<Rightarrow> pyval \<Rightarrow> pyval" where
  "py_or x y = (if truthy x then x else y)"

text \<open>
  A dictionary keeps its keys in insertion order; it is an association list with at most
  one pair for each key. \<^verbatim>\<open>d.get(k)\<close> gives \<^verbatim>\<open>None\<close> for a missing key,
  \<^verbatim>\<open>d[k] = v\<close> overwrites in place or appends.
\<close>

type_synonym order = "(string \<times> pyval) list"

definition has_key :: "order \<Rightarrow> string \<Rightarrow> bool" where
  "has_key d k = (k \<in> set (map fst d))"

definition dget :: "order \<Rightarrow> string \<Rightarrow> pyval" where
  "dget d k = (case map_of d k of None \<Rightarrow> VNone | Some v \<Rightarrow> v)"

fun dset :: "order \<Rightarrow> string \<Rightarrow> pyval \<Rightarrow> order" where
  "dset [] k v = [(k, v)]"
| "dset ((k', v') # d) k v = (if k' = k then (k, v) # d else (k', v') # dset d k v)"

subsection \<open>Strings\<close>

text \<open>
  A string is the list of its UTF-8 bytes. \<^verbatim>\<open>strip\<close> and \<^verbatim>\<open>lower\<close> are modelled on
  ASCII: the white space of \<^verbatim>\<open>str.isspace\<close> below 128, and the letters A to Z. Bytes
  from 128 on are kept as they are.
\<close>

definition is_space :: "char \<Rightarrow> bool" where
  "is_space c = (let n = (of_char c :: nat) in (9 \<le> n \<and> n \<le> 13) \<or> (28 \<le> n \<and> n \<le> 32))"

definition lower_char :: "char \<Rightarrow> char" where
  "lower_char c = (let n = (of_char c :: nat) in if 65 \<le> n \<and> n \<le> 90 then char_of (n + 32) else c)"

definition py_strip :: "string \<Rightarrow> string" where
  "py_strip s = rev (dropWhile is_space (rev (dropWhile is_space s)))"

definition py_lower :: "string \<Rightarrow> string" where
  "py_lower s = map lower_char s"

section \<open>Stage flags\<close>

text \<open>The keys of the editable fields; the last three letters are not ASCII.\<close>

definition k_Hazir :: string where
  "k_Hazir = ''Haz'' @ [char_of (0xC4 :: nat), char_of (0xB1 :: nat)] @ ''r''"

definition k_Gonderildi :: string where
  "k_Gonderildi = ''G'' @ [char_of (0xC3 :: nat), char_of (0xB6 :: nat)] @ ''nderildi''"

text \<open>\<^verbatim>\<open>normalize_flag_value\<close> (api.py, 3423-3433).\<close>

fun normalize_flag_value :: "pyval \<Rightarrow> bool" where
  "normalize_flag_value VNone = False"
| "normalize_flag_value (VBool b) = b"
| "normalize_flag_value (VInt n) = (n = 1)"
| "normalize_flag_value (VFloat r _) = (r = 1)"
| "normalize_flag_value (VStr s) =
     (py_lower (py_strip s) \<in> set [''true'', ''1'', ''yes'', ''y'', ''t''])"

text \<open>\<^verbatim>\<open>get_order_stage_flags\<close> (api.py, 3127-3131).\<close>

definition get_order_stage_flags :: "order \<Rightarrow> bool \<times> bool \<times> bool" where
  "get_order_stage_flags order =
     (let produce = normalize_flag_value (py_or (dget order ''Produce'') (dget order ''Kesildi''));
          ready = normalize_flag_value (py_or (dget order ''Ready'') (dget order k_Hazir));
          shipped = normalize_flag_value (py_or (dget order ''Shipped'') (dget order k_Gonderildi))
      in (produce, ready, shipped))"

text \<open>\<^verbatim>\<open>is_order_marked_complete\<close> (api.py, 3133-3135).\<close>

definition is_order_marked_complete :: "order \<Rightarrow> bool" where
  "is_order_marked_complete order =
     (case get_order_stage_flags order of (produce, ready, shipped) \<Rightarrow> produce \<and> ready \<and> shipped)"


section \<open>Completion log\<close>

text \<open>\<^verbatim>\<open>str(x)\<close> on a scalar; an integer prints in decimal.\<close>

definition digit_char :: "nat \<Rightarrow> char" where
  "digit_char n = char_of (48 + n)"

function str_nat :: "nat \<Rightarrow> string" where
  "str_nat n = (if n < 10 then [digit_char n] else str_nat (n div 10) @ [digit_char (n mod 10)])"
  by pat_completeness auto
termination
  by (relation "measure (\<lambda>n. n)") auto

definition str_int :: "int \<Rightarrow> string" where
  "str_int i = (if i < 0 then CHR ''-'' # str_nat (nat (- i)) else str_nat (nat i))"

fun py_str :: "pyval \<Rightarrow> string" where
  "py_str VNone = ''None''"
| "py_str (VBool b) = (if b then ''True'' else ''False'')"
| "py_str (VInt i) = str_int i"
| "py_str (VFloat r t) = t"
| "py_str (VStr s) = s"

text \<open>
  \<^verbatim>\<open>get_order_identifier\<close> (api.py, 3093-3108): the first truthy candidate, as a string.
  An absent explicit identifier is \<^verbatim>\<open>None\<close>.
\<close>

definition get_order_identifier :: "order \<Rightarrow> pyval \<Rightarrow> string option" where
  "get_order_identifier order explicit_identifier =
     (let candidates = [explicit_identifier, dget order ''transaction'',
            dget order ''Transaction ID'', dget order ''Transaction'', dget order ''order_id'',
            dget order ''Order ID'', dget order ''__manualId'', dget order ''id'',
            dget order ''ID'']
      in case filter truthy candidates of [] \<Rightarrow> None | candidate # _ \<Rightarrow> Some (py_str candidate))"

text \<open>
  An entry of the completion log, with the three keys the tracker writes; the log maps an
  identifier to its entry.
\<close>

record entry =
  is_complete :: bool
  completed_at :: "string option"
  history :: "string list"

type_synonym completion_log = "string \<rightharpoonup> entry"

text \<open>
  \<^verbatim>\<open>bool(entry.get("is_complete"))\<close> and \<^verbatim>\<open>entry.get("history") or []\<close>, where
  \<^verbatim>\<open>entry\<close> is the empty dictionary for an identifier the log does not have.
\<close>

definition was_complete :: "completion_log \<Rightarrow> string \<Rightarrow> bool" where
  "was_complete lg identifier = (case lg identifier of None \<Rightarrow> False | Some e \<Rightarrow> is_complete e)"

definition stored_history :: "completion_log \<Rightarrow> string \<Rightarrow> string list" where
  "stored_history lg identifier = (case lg identifier of None \<Rightarrow> [] | Some e \<Rightarrow> history e)"

text \<open>\<^verbatim>\<open>history[-50:]\<close>, taken when the list is longer than 50.\<close>

definition trim_history :: "string list \<Rightarrow> string list" where
  "trim_history h = (if length h > 50 then drop (length h - 50) h else h)"

text \<open>
  \<^verbatim>\<open>update_order_completion_tracking\<close> (api.py, 3137-3164). The first argument is the
  reading of the clock, \<^verbatim>\<open>datetime.now(timezone.utc).isoformat()\<close>; the log is passed in
  and returned.
\<close>

definition update_order_completion_tracking ::
  "string \<Rightarrow> order \<Rightarrow> pyval \<Rightarrow> completion_log \<Rightarrow> completion_log" where
  "update_order_completion_tracking timestamp order explicit_identifier lg =
     (case get_order_identifier order explicit_identifier of
        None \<Rightarrow> lg
      | Some identifier \<Rightarrow>
          (let is_complete_now = is_order_marked_complete order in
           if is_complete_now \<and> \<not> was_complete lg identifier then
             lg(identifier \<mapsto>
               \<lparr>is_complete = True, completed_at = Some timestamp,
                history = trim_history (stored_history lg identifier @ [timestamp])\<rparr>)
           else if \<not> is_complete_now \<and> was_complete lg identifier then
             (case lg identifier of
                None \<Rightarrow> lg
              | Some e \<Rightarrow> lg(identifier \<mapsto> e\<lparr>is_complete := False, completed_at := None\<rparr>))
           else lg))"

text \<open>\<^verbatim>\<open>remove_order_completion_entry\<close> (api.py, 3166-3171).\<close>

definition remove_order_completion_entry :: "string option \<Rightarrow> completion_log \<Rightarrow> completion_log" where
  "remove_order_completion_entry identifier lg =
     (case identifier of
        None \<Rightarrow> lg
      | Some i \<Rightarrow> if i = [] then lg else lg(i := None))"

section \<open>Dashboard aggregation\<close>

text \<open>
  The calendar the aggregator works with. Dates are kept abstract: \<open>cal_today\<close> is
  \<^verbatim>\<open>datetime.now(ISTANBUL_TZ).date()\<close>, \<open>cal_days\<close> the thirty days ending today,
  \<open>cal_order_day v\<close> the date of \<^verbatim>\<open>try_parse_order_date(v)\<close>, and
  \<open>cal_completion_day s\<close> the Istanbul date of \<^verbatim>\<open>parse_completion_timestamp(s)\<close> for a
  non-empty string \<open>s\<close>; both are \<open>None\<close> where the parser gives up.
\<close>

record 'd calendar =
  cal_today :: 'd
  cal_days :: "'d list"
  cal_order_day :: "pyval \<Rightarrow> 'd option"
  cal_completion_day :: "string \<Rightarrow> 'd option"

text \<open>\<^verbatim>\<open>completion_date_from_entry\<close> (api.py, 3121-3125).\<close>

definition completion_date_from_entry :: "'d calendar \<Rightarrow> entry \<Rightarrow> 'd option" where
  "completion_date_from_entry cal e =
     (case completed_at e of
        None \<Rightarrow> None
      | Some s \<Rightarrow> if s = [] then None else cal_completion_day cal s)"

text \<open>The state of the loop of \<^verbatim>\<open>compute_dashboard_order_stats\<close>.\<close>

record 'd dash_state =
  total_completed :: nat
  pending :: nat
  produce_only :: nat
  ready_total :: nat
  shipped_total :: nat
  daily_completed :: nat
  day_counts :: "'d \<Rightarrow> nat"
  stage_day_counts :: "'d \<Rightarrow> nat \<times> nat \<times> nat"
  completion_log_now :: completion_log
  log_dirty :: bool

text \<open>
  The block of the loop that consults the log (api.py, 3472-3485): the log after it, the
  completion date found, and whether an entry was rewritten.
\<close>

definition reconcile_order ::
  "'d calendar \<Rightarrow> order \<Rightarrow> bool \<Rightarrow> completion_log \<Rightarrow> completion_log \<times> 'd option \<times> bool" where
  "reconcile_order cal order is_complete_now lg =
     (case get_order_identifier order VNone of
        None \<Rightarrow> (lg, None, False)
      | Some identifier \<Rightarrow>
          (case lg identifier of
             None \<Rightarrow> (lg, None, False)
           | Some e \<Rightarrow>
               if \<not> is_complete_now \<and> is_complete e then
                 (lg(identifier \<mapsto> e\<lparr>is_complete := False, completed_at := None\<rparr>), None, True)
               else if is_complete_now \<and> is_complete e \<and>
                       (case completed_at e of None \<Rightarrow> False | Some s \<Rightarrow> s \<noteq> []) then
                 (case completion_date_from_entry cal e of
                    None \<Rightarrow>
                      (lg(identifier \<mapsto> e\<lparr>is_complete := False, completed_at := None\<rparr>), None, True)
                  | Some d \<Rightarrow> (lg, Some d, False))
               else (lg, None, False)))"

text \<open>The date both the stage histogram and the fallback read from the order.\<close>

definition order_date_value :: "order \<Rightarrow> pyval" where
  "order_date_value order =
     py_or (dget order ''tarih'') (py_or (dget order ''tarihh'')
       (py_or (dget order ''created_at'') (dget order ''_sortKey'')))"

text \<open>One turn of the loop (api.py, 3452-3501).\<close>

definition dashboard_order :: "'d calendar \<Rightarrow> order \<Rightarrow> 'd dash_state \<Rightarrow> 'd dash_state" where
  "dashboard_order cal order st =
     (case get_order_stage_flags order of (produce, ready, shipped) \<Rightarrow>
      let st1 = st\<lparr>produce_only := produce_only st + (if produce \<and> \<not> ready then 1 else 0),
                    ready_total := ready_total st + (if ready then 1 else 0),
                    shipped_total := shipped_total st + (if shipped then 1 else 0)\<rparr>;
          stage_date = cal_order_day cal (order_date_value order);
          st2 = (case stage_date of
                   None \<Rightarrow> st1
                 | Some day \<Rightarrow>
                     if day \<in> set (cal_days cal) then
                       (case stage_day_counts st1 day of (p, r, s) \<Rightarrow>
                          st1\<lparr>stage_day_counts := (stage_day_counts st1)
                            (day := (p + (if produce then 1 else 0), r + (if ready then 1 else 0),
                                     s + (if shipped then 1 else 0)))\<rparr>)
                     else st1);
          is_complete_now = (produce \<and> ready \<and> shipped)
      in case reconcile_order cal order is_complete_now (completion_log_now st2) of
           (lg, found, dirty) \<Rightarrow>
             let st3 = st2\<lparr>completion_log_now := lg, log_dirty := (log_dirty st2 \<or> dirty)\<rparr>;
                 completion_date =
                   (if is_complete_now \<and> found = None
                    then cal_order_day cal (order_date_value order) else found)
             in if produce \<and> ready \<and> shipped then
                  (case completion_date of
                     None \<Rightarrow> st3\<lparr>total_completed := total_completed st3 + 1\<rparr>
                   | Some day \<Rightarrow>
                       st3\<lparr>total_completed := total_completed st3 + 1,
                           daily_completed :=
                             daily_completed st3 + (if day = cal_today cal then 1 else 0),
                           day_counts :=
                             (if day \<in> set (cal_days cal)
                              then (day_counts st3)(day := day_counts st3 day + 1)
                              else day_counts st3)\<rparr>)
                else st3\<lparr>pending := pending st3 + 1\<rparr>)"

text \<open>The dictionary the function returns.\<close>

record 'd dashboard_stats =
  stats_completed :: nat
  stats_pending :: nat
  stats_produce :: nat
  stats_ready :: nat
  stats_shipped :: nat
  stats_daily_completed :: nat
  stats_monthly_trend :: "('d \<times> nat) list"
  stats_stage_trend :: "('d \<times> nat \<times> nat \<times> nat) list"

text \<open>
  \<^verbatim>\<open>compute_dashboard_order_stats\<close> (api.py, 3435-3525): the statistics, and the
  completion log as the pass leaves it.
\<close>

definition compute_dashboard_order_stats ::
  "'d calendar \<Rightarrow> order list \<Rightarrow> completion_log \<Rightarrow> 'd dashboard_stats \<times> completion_log" where
  "compute_dashboard_order_stats cal order_list lg =
     (let st0 = \<lparr>total_completed = 0, pending = 0, produce_only = 0, ready_total = 0,
                  shipped_total = 0, daily_completed = 0, day_counts = (\<lambda>_. 0),
                  stage_day_counts = (\<lambda>_. (0, 0, 0)), completion_log_now = lg,
                  log_dirty = False\<rparr>;
          st = fold (dashboard_order cal) order_list st0
      in (\<lparr>stats_completed = total_completed st, stats_pending = pending st,
           stats_produce = produce_only st, stats_ready = ready_total st,
           stats_shipped = shipped_total st, stats_daily_completed = daily_completed st,
           stats_monthly_trend = map (\<lambda>day. (day, day_counts st day)) (cal_days cal),
           stats_stage_trend = map (\<lambda>day. (day, stage_day_counts st day)) (cal_days cal)\<rparr>,
          completion_log_now st))"

section \<open>The unified view\<close>

text \<open>
  The cache in memory and its file. \<open>cache_file\<close> is \<open>None\<close> when the file does
  not exist; a file that cannot be read counts as the empty list, which is what
  \<^verbatim>\<open>load_cache\<close> leaves in memory then. \<^verbatim>\<open>save_cache\<close> is taken to succeed.
\<close>

record store =
  orders_cache :: "order list"
  cache_file :: "order list option"

text \<open>\<^verbatim>\<open>load_cache\<close> (api.py, 1719-1728) and \<^verbatim>\<open>save_cache\<close> (1730-1736).\<close>

definition load_cache :: "store \<Rightarrow> store" where
  "load_cache st = (case cache_file st of None \<Rightarrow> st | Some rows \<Rightarrow> st\<lparr>orders_cache := rows\<rparr>)"

definition save_cache :: "store \<Rightarrow> store" where
  "save_cache st = st\<lparr>cache_file := Some (orders_cache st)\<rparr>"

text \<open>\<^verbatim>\<open>d.get(k, default)\<close> and \<^verbatim>\<open>d.setdefault(k, v)\<close>.\<close>

definition dget_default :: "order \<Rightarrow> string \<Rightarrow> pyval \<Rightarrow> pyval" where
  "dget_default d k v = (case map_of d k of None \<Rightarrow> v | Some w \<Rightarrow> w)"

definition setdefault :: "order \<Rightarrow> string \<Rightarrow> pyval \<Rightarrow> order" where
  "setdefault d k v = (if has_key d k then d else d @ [(k, v)])"

text \<open>\<^verbatim>\<open>value in (None, "")\<close>.\<close>

definition is_blank :: "pyval \<Rightarrow> bool" where
  "is_blank v = (v = VNone \<or> v = VStr [])"

text \<open>\<^verbatim>\<open>get_checkbox_string\<close> (api.py, 3347-3351) and \<^verbatim>\<open>get_note_string\<close> (3354-3358).\<close>

definition get_checkbox_string :: "order \<Rightarrow> string \<Rightarrow> string \<Rightarrow> string" where
  "get_checkbox_string order primary_key fallback_key =
     (let v = dget order primary_key;
          v = (if is_blank v then dget order fallback_key else v)
      in py_str (if \<not> is_blank v then v else VStr ''FALSE''))"

definition get_note_string :: "order \<Rightarrow> string" where
  "get_note_string order =
     (let v = dget order ''Note'';
          v = (if is_blank v then dget order ''importantnote'' else v)
      in py_str (if \<not> is_blank v then v else VStr []))"

text \<open>
  The date library. \<open>parse_date s\<close> stands for what \<^verbatim>\<open>try_parse_order_date\<close> does
  with a stripped, non-empty string: \<^verbatim>\<open>parse_iso_datetime\<close>, then \<^verbatim>\<open>strptime\<close>
  with the four formats in turn; \<open>isoformat\<close> is \<^verbatim>\<open>datetime.isoformat\<close>.
\<close>

record 'dt date_library =
  parse_date :: "string \<Rightarrow> 'dt option"
  isoformat :: "'dt \<Rightarrow> string"

text \<open>\<^verbatim>\<open>try_parse_order_date\<close> (api.py, 3315-3332), on the values of the model.\<close>

definition try_parse_order_date :: "'dt date_library \<Rightarrow> pyval \<Rightarrow> 'dt option" where
  "try_parse_order_date lib v =
     (if \<not> truthy v then None
      else case v of
        VStr s \<Rightarrow> (let normalized = py_strip s in
                   if normalized = [] then None else parse_date lib normalized)
      | _ \<Rightarrow> None)"

text \<open>
  \<^verbatim>\<open>determine_sort_key\<close> (api.py, 3334-3345); \<open>utcnow\<close> is
  \<^verbatim>\<open>datetime.utcnow().isoformat()\<close> at the moment of the call.
\<close>

definition determine_sort_key :: "'dt date_library \<Rightarrow> string \<Rightarrow> order \<Rightarrow> string" where
  "determine_sort_key lib utcnow order =
     (let date_candidates = [dget order ''tarih'', dget order ''tarihh'',
            dget order ''created_at'', dget order ''_sortKey'']
      in case List.map_filter (try_parse_order_date lib) date_candidates of
           [] \<Rightarrow> utcnow
         | parsed # _ \<Rightarrow> isoformat lib parsed)"

definition k_buyer_message :: string where
  "k_buyer_message =
     ''M'' @ map char_of [0xC3, 0x83, 0xC2, 0xBC, 0xC3, 0x85 :: nat] @ ''teri Mesaj'' @
     map char_of [0xC3, 0x84, 0xC2, 0xB1 :: nat]"

text \<open>The body of the loop over the cache (api.py, 3367-3409): one order of the view.\<close>

definition transform_order :: "'dt date_library \<Rightarrow> string \<Rightarrow> order \<Rightarrow> order" where
  "transform_order lib utcnow order =
     (let transformed =
        [(''photo'', VStr (py_str (dget_default order ''photo'' (dget_default order ''Image'' (VStr []))))),
         (''buyername'', VStr (py_str (dget_default order ''Name'' (VStr [])))),
         (''Produce'', VStr (get_checkbox_string order ''Produce'' ''Kesildi'')),
         (''Ready'', VStr (get_checkbox_string order ''Ready'' k_Hazir)),
         (''Shipped'', VStr (get_checkbox_string order ''Shipped'' k_Gonderildi)),
         (''Note'', VStr (get_note_string order)),
         (''productname'', VStr (py_str (dget_default order ''Product'' (VStr [])))),
         (''Quantity'', VStr (py_str (dget_default order ''Quantity'' (VStr [])))),
         (''material'', VStr (py_str (dget_default order ''Material & Size'' (VStr [])))),
         (''Chain Length'', VStr (py_str (dget_default order ''Chain Length'' (VStr [])))),
         (''Personalization'', VStr (py_str (dget_default order ''Personalization'' (VStr [])))),
         (''ioss'', VStr (py_str (dget_default order ''IOSS Number'' (VStr [])))),
         (''FullAdress'', VStr (py_str (dget_default order ''FullAdress'' (VStr [])))),
         (''itemprice'', VStr (py_str (dget_default order ''Item Price'' (VStr [])))),
         (''discount'', VStr (py_str (dget_default order ''Discount'' (VStr [])))),
         (''salestax'', VStr (py_str (dget_default order ''Sales Tax'' (VStr [])))),
         (''ordertotal'', VStr (py_str (dget_default order ''Order Total'' (VStr [])))),
         (''buyeremail'', VStr (py_str (dget_default order ''Buyer Email'' (VStr [])))),
         (''tarih'', VStr (py_str (dget_default order ''Data'' (VStr [])))),
         (''vatcollected'', VStr (py_str (dget_default order ''VAT'' (VStr [])))),
         (''vatid'', VStr (py_str (dget_default order ''VAT ID'' (VStr [])))),
         (''shop'', VStr (py_str (dget_default order ''Shop Name'' (VStr [])))),
         (''vatpaidchf'', VStr (py_str (dget_default order ''VAT Paid CHF'' (VStr [])))),
         (''transaction'', VStr (py_str (dget_default order ''Transaction ID'' (VStr [])))),
         (''Buyer Note'', VStr (py_str (dget_default order ''Buyer Note'' (VStr [])))),
         (''Expres'', VStr (py_str (dget_default order ''Express'' (VStr [])))),
         (''data'', VStr (py_str (dget_default order ''Data'' (VStr [])))),
         (''buyermessage'', VStr (py_str (dget_default order k_buyer_message (VStr [])))),
         (''express'', VStr (py_str (dget_default order ''Express'' (VStr [])))),
         (''gonderimdurumu'', VStr ''pending''),
         (''status'', VStr ''pending''),
         (''Kesildi'', VStr (get_checkbox_string order ''Kesildi'' ''Produce'')),
         (k_Hazir, VStr (get_checkbox_string order k_Hazir ''Ready'')),
         (k_Gonderildi, VStr (get_checkbox_string order k_Gonderildi ''Shipped'')),
         (''importantnote'', VStr (get_note_string order)),
         (''Problem'', VStr (py_str (py_or (dget_default order ''Problem'' (VStr [])) (VStr ''FALSE''))))];
        transformed = dset transformed ''isManual'' (VBool False)
      in dset transformed ''_sortKey'' (VStr (determine_sort_key lib utcnow transformed)))"

text \<open>
  The preparation of a manual order for the view (api.py, 3414-3417): the copy gets
  \<^verbatim>\<open>isManual\<close> and \<^verbatim>\<open>_sortKey\<close> where it lacks them.
\<close>

definition manual_payload :: "string \<Rightarrow> order \<Rightarrow> order" where
  "manual_payload utcnow manual_entry =
     (let e = setdefault manual_entry ''isManual'' (VBool True)
      in setdefault e ''_sortKey'' (py_or (dget e ''created_at'') (VStr utcnow)))"

text \<open>
  The key of the final sort, \<^verbatim>\<open>item.get("_sortKey") or ""\<close>: a string, or a number when
  a manual order was stored with a numeric \<^verbatim>\<open>_sortKey\<close>. Python orders strings by code
  point and numbers by value, and raises \<^verbatim>\<open>TypeError\<close> when it has to compare a string
  with a number. The order below puts every number before every string; the sort never
  uses that part, since a list with both kinds of key is an error.
\<close>

datatype skey = SNum rat | SStr string

fun skey_le :: "skey \<Rightarrow> skey \<Rightarrow> bool" where
  "skey_le (SNum a) (SNum b) = (a \<le> b)"
| "skey_le (SNum a) (SStr t) = True"
| "skey_le (SStr s) (SNum b) = False"
| "skey_le (SStr s) (SStr t) = (s \<le> t)"

instantiation skey :: linorder
begin

definition less_eq_skey :: "skey \<Rightarrow> skey \<Rightarrow> bool" where
  "less_eq_skey a b = skey_le a b"

definition less_skey :: "skey \<Rightarrow> skey \<Rightarrow> bool" where
  "less_skey a b = (skey_le a b \<and> \<not> skey_le b a)"

instance
proof
  fix x y z :: skey
  show "(x < y) = (x \<le> y \<and> \<not> y \<le> x)"
    by (simp add: less_skey_def less_eq_skey_def)
  show "x \<le> x"
    by (cases x) (simp_all add: less_eq_skey_def)
  show "x \<le> y \<Longrightarrow> y \<le> z \<Longrightarrow> x \<le> z"
    by (cases x; cases y; cases z) (simp_all add: less_eq_skey_def)
  show "x \<le> y \<Longrightarrow> y \<le> x \<Longrightarrow> x = y"
    by (cases x; cases y) (simp_all add: less_eq_skey_def)
  show "x \<le> y \<or> y \<le> x"
    by (cases x; cases y) (auto simp: less_eq_skey_def)
qed

end

fun to_skey :: "pyval \<Rightarrow> skey" where
  "to_skey (VStr s) = SStr s"
| "to_skey (VInt n) = SNum (of_int n)"
| "to_skey (VFloat r t) = SNum r"
| "to_skey (VBool b) = SNum (if b then 1 else 0)"
| "to_skey VNone = SNum 0"

definition sort_key_of :: "order \<Rightarrow> skey" where
  "sort_key_of item = to_skey (py_or (dget item ''_sortKey'') (VStr []))"

definition is_str_key :: "skey \<Rightarrow> bool" where
  "is_str_key k = (case k of SStr _ \<Rightarrow> True | SNum _ \<Rightarrow> False)"

text \<open>
  \<^verbatim>\<open>list.sort(key=..., reverse=True)\<close>: the list is reversed, sorted by a stable
  ascending sort, and reversed again, so equal keys keep their order.
\<close>

definition sort_reverse :: "('a \<Rightarrow> 'k::linorder) \<Rightarrow> 'a list \<Rightarrow> 'a list" where
  "sort_reverse f xs = rev (sort_key f (rev xs))"

datatype py_error = TypeError | AttributeError

text \<open>
  The two halves of the view: the cache through \<open>transform_order\<close>, and the manual
  orders. \<open>clock n\<close> is the reading of \<^verbatim>\<open>datetime.utcnow().isoformat()\<close> at the
  \<open>n\<close>-th order handled, the cache first and the manual orders after it.
\<close>

definition transformed_orders :: "'dt date_library \<Rightarrow> (nat \<Rightarrow> string) \<Rightarrow> order list \<Rightarrow> order list" where
  "transformed_orders lib clock cache =
     map (\<lambda>(n, order). transform_order lib (clock n) order) (enumerate 0 cache)"

definition manual_payloads :: "(nat \<Rightarrow> string) \<Rightarrow> nat \<Rightarrow> order list \<Rightarrow> order list" where
  "manual_payloads clock offset manual_orders =
     map (\<lambda>(n, entry). manual_payload (clock n) entry) (enumerate offset manual_orders)"

text \<open>
  \<^verbatim>\<open>transform_orders_for_frontend\<close> (api.py, 3361-3421). The result is the view, or
  the error of the sort, and the store, whose cache is loaded from the file when it was
  empty.
\<close>

definition transform_orders_for_frontend ::
  "'dt date_library \<Rightarrow> (nat \<Rightarrow> string) \<Rightarrow> order list \<Rightarrow> store \<Rightarrow> (py_error + order list) \<times> store" where
  "transform_orders_for_frontend lib clock manual_orders st =
     (let st = (if orders_cache st = [] then load_cache st else st);
          combined = manual_payloads clock (length (orders_cache st)) manual_orders @
                     transformed_orders lib clock (orders_cache st);
          keys = map sort_key_of combined
      in if (\<forall>k \<in> set keys. is_str_key k) \<or> (\<forall>k \<in> set keys. \<not> is_str_key k)
         then (Inr (sort_reverse sort_key_of combined), st)
         else (Inl TypeError, st))"

section \<open>The editable-field preserver\<close>

text \<open>\<^verbatim>\<open>EDITABLE_FIELD_GROUPS\<close> (api.py, 1879-1884): display name and canonical name.\<close>

definition editable_field_groups :: "(string \<times> string) list" where
  "editable_field_groups =
     [(''Produce'', ''Kesildi''), (''Ready'', k_Hazir), (''Shipped'', k_Gonderildi),
      (''Note'', ''importantnote'')]"

text \<open>
  One turn of the loop of \<^verbatim>\<open>preserve_editable_fields\<close>: the value kept from the
  source, the canonical name first, and its copy under both names of the target.
\<close>

definition preserved_value :: "order \<Rightarrow> string \<times> string \<Rightarrow> pyval" where
  "preserved_value source_order g =
     (case g of (frontend_field, backend_field) \<Rightarrow>
        if has_key source_order backend_field then dget source_order backend_field
        else if has_key source_order frontend_field then dget source_order frontend_field
        else VNone)"

definition preserve_group :: "order \<Rightarrow> string \<times> string \<Rightarrow> order \<Rightarrow> order" where
  "preserve_group source_order g target_order =
     (if preserved_value source_order g \<noteq> VNone
      then dset (dset target_order (fst g) (preserved_value source_order g)) (snd g)
             (preserved_value source_order g)
      else target_order)"

text \<open>\<^verbatim>\<open>preserve_editable_fields\<close> (api.py, 1887-1902); the target is returned.\<close>

definition preserve_editable_fields :: "order \<Rightarrow> order \<Rightarrow> order" where
  "preserve_editable_fields target_order source_order =
     (if source_order = [] \<or> target_order = [] then target_order
      else fold (preserve_group source_order) editable_field_groups target_order)"

section \<open>The three merges\<close>

text \<open>
  What surrounds a merge: the environment variable \<^verbatim>\<open>STARTUP_MODE\<close>, the constant
  \<^verbatim>\<open>MAX_SYNC_ORDERS\<close> (\<open>None\<close> when no limit is set), and the image cache:
  \<open>image_cached url\<close> is the address of the cached file of a Google Drive address once
  the download has been tried, \<open>None\<close> when there is no such file; \<open>images_downloaded\<close>
  says whether a file was fetched anew.
\<close>

record env =
  startup_mode :: bool
  max_sync_orders :: "nat option"
  image_cached :: "string \<Rightarrow> string option"
  images_downloaded :: bool

text \<open>What a call gives back: the value returned, or the exception that leaves it.\<close>

datatype outcome = Returned pyval | Raised py_error

text \<open>\<^verbatim>\<open>limit_orders\<close> (api.py, 1680-1686).\<close>

definition limit_orders :: "env \<Rightarrow> order list \<Rightarrow> order list" where
  "limit_orders e records =
     (case max_sync_orders e of
        None \<Rightarrow> records
      | Some n \<Rightarrow> if records = [] \<or> n = 0 then records
                  else if length records > n then take n records else records)"

text \<open>
  The identifier of a row as the merges read it: a fetched row by
  \<^verbatim>\<open>order.get('Transaction ID') or order.get('transaction')\<close>, a cached row by
  \<^verbatim>\<open>order.get('transaction') or order.get('Transaction ID')\<close>.
\<close>

definition fetched_id :: "order \<Rightarrow> pyval" where
  "fetched_id order = py_or (dget order ''Transaction ID'') (dget order ''transaction'')"

definition cached_id :: "order \<Rightarrow> pyval" where
  "cached_id order = py_or (dget order ''transaction'') (dget order ''Transaction ID'')"

text \<open>
  Identifiers are keys of dictionaries and members of sets. Python takes two keys for one
  when they are equal, and \<^verbatim>\<open>1 == 1.0 == True\<close>: a key is its string, or its number.
\<close>

datatype hkey = HNone | HNum rat | HStr string

fun hash_key :: "pyval \<Rightarrow> hkey" where
  "hash_key VNone = HNone"
| "hash_key (VBool b) = HNum (if b then 1 else 0)"
| "hash_key (VInt n) = HNum (of_int n)"
| "hash_key (VFloat r t) = HNum r"
| "hash_key (VStr s) = HStr s"

text \<open>\<^verbatim>\<open>x == y\<close> on scalars.\<close>

definition py_eq :: "pyval \<Rightarrow> pyval \<Rightarrow> bool" where
  "py_eq x y = (hash_key x = hash_key y)"

text \<open>Whether \<open>s\<close> occurs in \<open>t\<close>: \<^verbatim>\<open>s in t\<close> on strings.\<close>

fun contains :: "string \<Rightarrow> string \<Rightarrow> bool" where
  "contains s [] = (s = [])"
| "contains s (c # t) = (take (length s) (c # t) = s \<or> contains s t)"

text \<open>
  The loop of \<^verbatim>\<open>download_order_images\<close> (api.py, 1758-1833) for one order: the order
  with \<^verbatim>\<open>photo\<close> set to the cached image when there is one. \<^verbatim>\<open>order.get('Image',
  '').strip()\<close> raises \<^verbatim>\<open>AttributeError\<close> on a value that is not a string.
\<close>

definition download_image :: "env \<Rightarrow> order \<Rightarrow> py_error + order" where
  "download_image e order =
     (case dget_default order ''Image'' (VStr []) of
        VStr s \<Rightarrow>
          (let photo_url = py_strip s in
           if photo_url = [] then Inr order
           else if contains ''drive.google.com'' photo_url \<and> contains ''id='' photo_url then
             (case image_cached e photo_url of
                None \<Rightarrow> Inr order
              | Some cached_image_url \<Rightarrow> Inr (dset order ''photo'' (VStr cached_image_url)))
           else Inr order)
      | _ \<Rightarrow> Inl AttributeError)"

text \<open>
  The loop over a list of orders, in place: the exception of the first order that raises,
  if any, and the list as the loop leaves it.
\<close>

fun download_loop :: "(order \<Rightarrow> py_error + order) \<Rightarrow> order list \<Rightarrow> py_error option \<times> order list" where
  "download_loop f [] = (None, [])"
| "download_loop f (order # rest) =
     (case f order of
        Inl x \<Rightarrow> (Some x, order # rest)
      | Inr order' \<Rightarrow> (case download_loop f rest of (x, rest') \<Rightarrow> (x, order' # rest')))"

text \<open>\<^verbatim>\<open>download_order_images\<close> (api.py, 1738-1837).\<close>

definition download_order_images :: "env \<Rightarrow> store \<Rightarrow> py_error option \<times> store" where
  "download_order_images e st =
     (if startup_mode e then (None, st)
      else case download_loop (download_image e) (orders_cache st) of
             (Some x, cache) \<Rightarrow> (Some x, st\<lparr>orders_cache := cache\<rparr>)
           | (None, cache) \<Rightarrow>
               (None, if images_downloaded e then save_cache (st\<lparr>orders_cache := cache\<rparr>)
                      else st\<lparr>orders_cache := cache\<rparr>))"

text \<open>
  \<^verbatim>\<open>existing_orders_map\<close> of \<^verbatim>\<open>update_cache\<close> (api.py, 1924-1928), looked up at an
  identifier: the first cached row with that identifier.
\<close>

definition first_existing :: "order list \<Rightarrow> pyval \<Rightarrow> order option" where
  "first_existing cache transaction_id =
     find (\<lambda>existing_order. truthy (cached_id existing_order) \<and>
             py_eq (cached_id existing_order) transaction_id) cache"

text \<open>
  The loop over the fetched rows (api.py, 1935-1941): the rows it appends, and the set
  \<^verbatim>\<open>cached_transactions\<close> after it.
\<close>

fun add_new_orders :: "order list \<Rightarrow> hkey list \<Rightarrow> order list \<Rightarrow> order list \<times> hkey list" where
  "add_new_orders cache cached_transactions [] = ([], cached_transactions)"
| "add_new_orders cache cached_transactions (order # rest) =
     (let transaction_id = fetched_id order in
      if truthy transaction_id \<and> hash_key transaction_id \<notin> set cached_transactions then
        (let order' = (case first_existing cache transaction_id of
                         None \<Rightarrow> order
                       | Some existing \<Rightarrow> preserve_editable_fields order existing)
         in case add_new_orders cache (hash_key transaction_id # cached_transactions) rest of
              (added, seen) \<Rightarrow> (order' # added, seen))
      else add_new_orders cache cached_transactions rest)"

text \<open>The merged list of \<^verbatim>\<open>update_cache\<close> (api.py, 1915-1949).\<close>

definition full_replace :: "order list \<Rightarrow> order list \<Rightarrow> order list" where
  "full_replace cache new_orders =
     (case add_new_orders cache [] new_orders of
        (added, cached_transactions) \<Rightarrow>
          added @ filter (\<lambda>existing_order. truthy (cached_id existing_order) \<and>
                    hash_key (cached_id existing_order) \<notin> set cached_transactions) cache)"

text \<open>
  \<^verbatim>\<open>update_cache\<close> (api.py, 1905-1955). \<open>fetched\<close> is what
  \<^verbatim>\<open>fetch_orders_from_sheet\<close> returns: \<open>None\<close>, or the rows of the sheet.
\<close>

definition update_cache :: "env \<Rightarrow> bool \<Rightarrow> order list option \<Rightarrow> store \<Rightarrow> outcome \<times> store" where
  "update_cache e download_images fetched st =
     (if startup_mode e then (Returned VNone, st)
      else case fetched of
        None \<Rightarrow> (Returned VNone, st)
      | Some rows \<Rightarrow>
          (let st1 = st\<lparr>orders_cache := full_replace (orders_cache st) (limit_orders e rows)\<rparr> in
           if download_images then
             (case download_order_images e st1 of
                (Some x, st2) \<Rightarrow> (Raised x, st2)
              | (None, st2) \<Rightarrow> (Returned VNone, save_cache st2))
           else (Returned VNone, save_cache st1)))"

text \<open>
  The sets and dictionaries of \<^verbatim>\<open>incremental_update_cache\<close>. Python leaves the order
  in which a set is walked open; the model walks the identifiers in the order \<open>remdups\<close>
  gives. \<open>new_orders_map\<close> holds, for an identifier, the last fetched row that has it.
\<close>

definition current_transaction_ids :: "order list \<Rightarrow> hkey list" where
  "current_transaction_ids cache =
     remdups (map hash_key (filter truthy (map cached_id cache)))"

definition new_orders_map :: "order list \<Rightarrow> hkey \<Rightarrow> order option" where
  "new_orders_map new_orders k =
     find (\<lambda>order. truthy (fetched_id order) \<and> hash_key (fetched_id order) = k) (rev new_orders)"

definition new_orders_keys :: "order list \<Rightarrow> hkey list" where
  "new_orders_keys new_orders = remdups (map hash_key (filter truthy (map fetched_id new_orders)))"

text \<open>The keys left out of the comparison of a fetched row with its cached row.\<close>

definition editable_keys :: "string list" where
  "editable_keys =
     [''Produce'', ''Ready'', ''Shipped'', ''Note'', ''Kesildi'', k_Hazir, k_Gonderildi,
      ''importantnote'']"

definition order_changed :: "order \<Rightarrow> order \<Rightarrow> bool" where
  "order_changed existing_order new_order =
     (\<exists>(key, v) \<in> set new_order. key \<notin> set editable_keys \<and> \<not> py_eq (dget existing_order key) v)"

text \<open>
  The search for the first row that satisfies \<open>P\<close> and its replacement in place by
  \<open>f\<close> of it, when \<open>f\<close> gives a row; the flag says whether a row was replaced.
\<close>

fun update_first :: "('a \<Rightarrow> bool) \<Rightarrow> ('a \<Rightarrow> 'a option) \<Rightarrow> 'a list \<Rightarrow> 'a list \<times> bool" where
  "update_first P f [] = ([], False)"
| "update_first P f (x # xs) =
     (if P x then (case f x of None \<Rightarrow> (x # xs, False) | Some y \<Rightarrow> (y # xs, True))
      else case update_first P f xs of (ys, b) \<Rightarrow> (x # ys, b))"

text \<open>
  One turn of the second loop (api.py, 1996-2026), for the identifier \<open>k\<close> of the
  cache: the cache and the identifiers updated so far, after it.
\<close>

definition check_updated :: "order list \<Rightarrow> hkey \<Rightarrow> order list \<times> hkey list \<Rightarrow> order list \<times> hkey list" where
  "check_updated new_orders k acc =
     (case acc of (cache, updated_order_ids) \<Rightarrow>
        case new_orders_map new_orders k of
          None \<Rightarrow> (cache, updated_order_ids)
        | Some new_order \<Rightarrow>
            (case update_first (\<lambda>order. hash_key (cached_id order) = k)
                    (\<lambda>existing_order.
                       if existing_order \<noteq> [] \<and> order_changed existing_order new_order
                       then Some (preserve_editable_fields new_order existing_order)
                       else None) cache of
               (cache', changed) \<Rightarrow>
                 (cache', if changed then updated_order_ids @ [k] else updated_order_ids)))"

text \<open>\<^verbatim>\<open>_download_images_for_specific_orders\<close> (api.py, 2040-2136).\<close>

definition download_images_for_specific_orders ::
  "env \<Rightarrow> hkey list \<Rightarrow> store \<Rightarrow> py_error option \<times> store" where
  "download_images_for_specific_orders e transaction_ids st =
     (if transaction_ids = [] \<or> orders_cache st = [] then (None, st)
      else case download_loop
                  (\<lambda>order. if hash_key (cached_id order) \<in> set transaction_ids
                            then download_image e order else Inr order) (orders_cache st) of
             (Some x, cache) \<Rightarrow> (Some x, st\<lparr>orders_cache := cache\<rparr>)
           | (None, cache) \<Rightarrow>
               (None, if images_downloaded e then save_cache (st\<lparr>orders_cache := cache\<rparr>)
                      else st\<lparr>orders_cache := cache\<rparr>))"

text \<open>\<^verbatim>\<open>incremental_update_cache\<close> (api.py, 1957-2038).\<close>

definition incremental_update_cache :: "env \<Rightarrow> order list option \<Rightarrow> store \<Rightarrow> outcome \<times> store" where
  "incremental_update_cache e fetched st =
     (let current_ids = current_transaction_ids (orders_cache st) in
      case fetched of
        None \<Rightarrow> (Returned (VBool False), st)
      | Some rows \<Rightarrow>
          (let new_orders = limit_orders e rows;
               new_order_ids = filter (\<lambda>k. k \<notin> set current_ids) (new_orders_keys new_orders);
               cache1 = orders_cache st @ List.map_filter (new_orders_map new_orders) new_order_ids
           in case fold (check_updated new_orders) current_ids (cache1, []) of
                (cache2, updated_order_ids) \<Rightarrow>
                  if new_order_ids \<noteq> [] \<or> updated_order_ids \<noteq> [] then
                    (case download_images_for_specific_orders e (new_order_ids @ updated_order_ids)
                            (st\<lparr>orders_cache := cache2\<rparr>) of
                       (Some x, st2) \<Rightarrow> (Raised x, st2)
                     | (None, st2) \<Rightarrow> (Returned (VBool True), save_cache st2))
                  else (Returned (VBool False), st\<lparr>orders_cache := cache2\<rparr>)))"

subsection \<open>The quick sync\<close>

text \<open>
  A naive \<^verbatim>\<open>datetime\<close>: year, month, day, hour, minute, second, microsecond, in the
  order of the tuples, which is the order of time. \<^verbatim>\<open>datetime.min\<close> is the first day of
  the year 1.
\<close>

type_synonym datetime = "nat \<times> nat \<times> nat \<times> nat \<times> nat \<times> nat \<times> nat"

definition datetime_min :: datetime where
  "datetime_min = (1, 1, 1, 0, 0, 0, 0)"

text \<open>
  \<^verbatim>\<open>datetime.strptime\<close> for the two formats of \<^verbatim>\<open>get_order_date\<close>, on ASCII digits.
  A month is written 1 to 12 with one or two digits, a day 1 to 31 with one or two digits
  or a space and a digit, a year with four digits; the date must exist and nothing may
  follow it.
\<close>

definition is_digit :: "char \<Rightarrow> bool" where
  "is_digit c = (48 \<le> (of_char c :: nat) \<and> (of_char c :: nat) \<le> 57)"

definition digit_value :: "char \<Rightarrow> nat" where
  "digit_value c = of_char c - 48"

fun split_on :: "char \<Rightarrow> string \<Rightarrow> string list" where
  "split_on sep [] = [[]]"
| "split_on sep (c # cs) =
     (if c = sep then [] # split_on sep cs
      else case split_on sep cs of [] \<Rightarrow> [[c]] | w # ws \<Rightarrow> (c # w) # ws)"

definition parse_month :: "string \<Rightarrow> nat option" where
  "parse_month s =
     (case s of
        [c] \<Rightarrow> if is_digit c \<and> c \<noteq> CHR ''0'' then Some (digit_value c) else None
      | [c, d] \<Rightarrow>
          if (c = CHR ''1'' \<and> (d = CHR ''0'' \<or> d = CHR ''1'' \<or> d = CHR ''2'')) \<or>
             (c = CHR ''0'' \<and> is_digit d \<and> d \<noteq> CHR ''0'')
          then Some (10 * digit_value c + digit_value d) else None
      | _ \<Rightarrow> None)"

definition parse_day :: "string \<Rightarrow> nat option" where
  "parse_day s =
     (case s of
        [c] \<Rightarrow> if is_digit c \<and> c \<noteq> CHR ''0'' then Some (digit_value c) else None
      | [c, d] \<Rightarrow>
          if (c = CHR ''3'' \<and> (d = CHR ''0'' \<or> d = CHR ''1'')) \<or>
             ((c = CHR ''1'' \<or> c = CHR ''2'') \<and> is_digit d) \<or>
             (c = CHR ''0'' \<and> is_digit d \<and> d \<noteq> CHR ''0'')
          then Some (10 * digit_value c + digit_value d)
          else if c = CHR '' '' \<and> is_digit d \<and> d \<noteq> CHR ''0'' then Some (digit_value d)
          else None
      | _ \<Rightarrow> None)"

definition parse_year :: "string \<Rightarrow> nat option" where
  "parse_year s =
     (case s of
        [a, b, c, d] \<Rightarrow>
          if is_digit a \<and> is_digit b \<and> is_digit c \<and> is_digit d
          then Some (1000 * digit_value a + 100 * digit_value b + 10 * digit_value c + digit_value d)
          else None
      | _ \<Rightarrow> None)"

definition days_in_month :: "nat \<Rightarrow> nat \<Rightarrow> nat" where
  "days_in_month y m =
     (if m = 2 then (if y mod 4 = 0 \<and> (y mod 100 \<noteq> 0 \<or> y mod 400 = 0) then 29 else 28)
      else if m = 4 \<or> m = 6 \<or> m = 9 \<or> m = 11 then 30 else 31)"

definition make_date :: "nat option \<Rightarrow> nat option \<Rightarrow> nat option \<Rightarrow> datetime option" where
  "make_date y m d =
     (case (y, m, d) of
        (Some y, Some m, Some d) \<Rightarrow>
          if 1 \<le> y \<and> d \<le> days_in_month y m then Some (y, m, d, 0, 0, 0, 0) else None
      | _ \<Rightarrow> None)"

definition strptime_mdY :: "string \<Rightarrow> datetime option" where
  "strptime_mdY s =
     (case split_on CHR ''/'' s of
        [m, d, y] \<Rightarrow> make_date (parse_year y) (parse_month m) (parse_day d)
      | _ \<Rightarrow> None)"

definition strptime_dmY :: "string \<Rightarrow> datetime option" where
  "strptime_dmY s =
     (case split_on CHR ''.'' s of
        [d, m, y] \<Rightarrow> make_date (parse_year y) (parse_month m) (parse_day d)
      | _ \<Rightarrow> None)"

text \<open>
  \<^verbatim>\<open>get_order_date\<close> (api.py, 2148-2162); \<open>now\<close> is \<^verbatim>\<open>datetime.now()\<close> at the call.
  A failing \<^verbatim>\<open>strptime\<close> raises, and the handler returns \<^verbatim>\<open>datetime.min\<close>.
\<close>

definition get_order_date :: "datetime \<Rightarrow> order \<Rightarrow> datetime" where
  "get_order_date now order =
     (if has_key order ''Data'' \<and> truthy (dget order ''Data'') then
        (let date_str = py_strip (py_str (dget order ''Data'')) in
         if CHR ''/'' \<in> set date_str then
           (case strptime_mdY date_str of Some d \<Rightarrow> d | None \<Rightarrow> datetime_min)
         else if CHR ''.'' \<in> set date_str then
           (case strptime_dmY date_str of Some d \<Rightarrow> d | None \<Rightarrow> datetime_min)
         else now)
      else datetime_min)"

text \<open>
  \<^verbatim>\<open>sorted(new_orders, key=get_order_date, reverse=True)[:20]\<close>; \<open>clock n\<close> is the
  reading of \<^verbatim>\<open>datetime.now()\<close> when the key of the \<open>n\<close>-th row is computed.
\<close>

definition latest_20 :: "(nat \<Rightarrow> datetime) \<Rightarrow> order list \<Rightarrow> order list" where
  "latest_20 clock new_orders =
     take 20 (map snd (sort_reverse (\<lambda>(n, order). get_order_date (clock n) order)
       (enumerate 0 new_orders)))"

text \<open>
  \<^verbatim>\<open>existing_orders_map\<close> of \<^verbatim>\<open>sync_latest_orders\<close> (api.py, 2175-2180), looked up at
  an identifier: the last cached row with that identifier.
\<close>

definition last_existing :: "order list \<Rightarrow> pyval \<Rightarrow> order option" where
  "last_existing cache transaction =
     find (\<lambda>existing_order. truthy (cached_id existing_order) \<and>
             py_eq (cached_id existing_order) transaction) (rev cache)"

text \<open>The loop over the latest rows (api.py, 2187-2198): the rows it appends.\<close>

definition update_latest :: "order list \<Rightarrow> order list \<Rightarrow> order list" where
  "update_latest cache latest =
     map (\<lambda>order. case last_existing cache (cached_id order) of
                     None \<Rightarrow> order
                   | Some existing_order \<Rightarrow> preserve_editable_fields order existing_order)
       (filter (\<lambda>order. truthy (cached_id order)) latest)"

text \<open>The merged list of \<^verbatim>\<open>sync_latest_orders\<close> (api.py, 2183-2208).\<close>

definition quick_sync :: "order list \<Rightarrow> order list \<Rightarrow> order list" where
  "quick_sync cache latest =
     update_latest cache latest @
     filter (\<lambda>existing_order. truthy (cached_id existing_order) \<and>
               hash_key (cached_id existing_order) \<notin>
                 set (map hash_key (filter truthy (map cached_id latest)))) cache"

text \<open>\<^verbatim>\<open>sync_latest_orders\<close> (api.py, 2138-2217).\<close>

definition sync_latest_orders ::
  "env \<Rightarrow> (nat \<Rightarrow> datetime) \<Rightarrow> order list option \<Rightarrow> store \<Rightarrow> outcome \<times> store" where
  "sync_latest_orders e clock fetched st =
     (case fetched of
        None \<Rightarrow> (Returned VNone, st)
      | Some rows \<Rightarrow>
          (let st1 = st\<lparr>orders_cache :=
                 quick_sync (orders_cache st) (latest_20 clock (limit_orders e rows))\<rparr>
           in case download_order_images e st1 of
                (Some x, st2) \<Rightarrow> (Raised x, st2)
              | (None, st2) \<Rightarrow> (Returned VNone, save_cache st2)))"

section \<open>Notions used in the statements\<close>

text \<open>The bound on every history of the log.\<close>

definition history_bounded :: "completion_log \<Rightarrow> bool" where
  "history_bounded lg = (\<forall>i e. lg i = Some e \<longrightarrow> length (history e) \<le> 50)"

text \<open>
  One cycle of an order: the tracker sees it complete (\<open>done\<close>) at the clock reading
  \<open>ts\<close>, then sees it incomplete again (\<open>undone\<close>).
\<close>

definition completion_cycle ::
  "order \<Rightarrow> order \<Rightarrow> pyval \<Rightarrow> string \<Rightarrow> completion_log \<Rightarrow> completion_log" where
  "completion_cycle done undone hint ts lg =
     update_order_completion_tracking ts undone hint
       (update_order_completion_tracking ts done hint lg)"

text \<open>
  What a reconciliation pass may do to a log: an entry stays as it is, or an entry stored
  as complete loses its flag and its completion time.
\<close>

definition cleared :: "completion_log \<Rightarrow> completion_log \<Rightarrow> bool" where
  "cleared lg lg' =
     (\<forall>j. lg' j = lg j \<or>
        (\<exists>e. lg j = Some e \<and> is_complete e \<and>
           lg' j = Some (e\<lparr>is_complete := False, completed_at := None\<rparr>)))"

text \<open>An order of the sheet with its identifier and its three stage flags, for examples.\<close>

definition staged_order :: "string \<Rightarrow> string \<Rightarrow> string \<Rightarrow> string \<Rightarrow> order" where
  "staged_order t p r s =
     [(''transaction'', VStr t), (''Produce'', VStr p), (''Ready'', VStr r), (''Shipped'', VStr s)]"

text \<open>A calendar of day numbers in which no date parses, for examples.\<close>

definition blank_calendar :: "nat calendar" where
  "blank_calendar =
     \<lparr>cal_today = 30, cal_days = [1..<31], cal_order_day = (\<lambda>_. None),
      cal_completion_day = (\<lambda>_. None)\<rparr>"

text \<open>
  A date library in which no date parses, and the two orders of the sort-stability
  example: a manual order with its sort key, and a synced order without a date, whose
  sort key is the reading of the clock.
\<close>

definition blank_library :: "string date_library" where
  "blank_library = \<lparr>parse_date = (\<lambda>_. None), isoformat = (\<lambda>d. d)\<rparr>"

definition example_manual :: order where
  "example_manual = [(''transaction'', VStr ''M1''), (''_sortKey'', VStr ''2025-01-02T00:00:00'')]"

definition example_synced :: order where
  "example_synced = [(''Transaction ID'', VStr ''T1'')]"

text \<open>
  A row \<open>r\<close> carries the edits of a row \<open>c\<close>: every editable field that has a value
  in \<open>c\<close>, read as the preserver reads it, has that value in \<open>r\<close>.
\<close>

definition carries_edits :: "order \<Rightarrow> order \<Rightarrow> bool" where
  "carries_edits c r =
     (\<forall>g \<in> set editable_field_groups.
        preserved_value c g \<noteq> VNone \<longrightarrow> preserved_value r g = preserved_value c g)"

text \<open>
  The orders of the edit-preservation example: the cached order T1 with Produce set and a
  note, the row the sheet has for T1, and a cached order whose two names of the Produce
  flag disagree. \<open>plain_env\<close> is a run with no limit and no cached image.
\<close>

definition edited_order :: order where
  "edited_order =
     [(''Transaction ID'', VStr ''T1''), (''Produce'', VStr ''TRUE''), (''Note'', VStr ''hello'')]"

definition sheet_row :: order where
  "sheet_row =
     [(''Transaction ID'', VStr ''T1''), (''Produce'', VStr ''FALSE''), (''Note'', VStr [])]"

definition split_order :: order where
  "split_order =
     [(''Transaction ID'', VStr ''T1''), (''Produce'', VStr ''TRUE''),
      (''Kesildi'', VStr ''FALSE''), (''Note'', VStr ''hello'')]"

definition plain_env :: env where
  "plain_env = \<lparr>startup_mode = False, max_sync_orders = None, image_cached = (\<lambda>_. None),
     images_downloaded = False\<rparr>"

text \<open>
  The fetched rows the full replace takes up, each the first of its identifier, and the
  row it stores for one of them: the fetched row, with the editable fields of the first
  cached row of that identifier when there is one.
\<close>

fun first_rows :: "hkey list \<Rightarrow> order list \<Rightarrow> order list" where
  "first_rows seen [] = []"
| "first_rows seen (order # rest) =
     (if truthy (fetched_id order) \<and> hash_key (fetched_id order) \<notin> set seen
      then order # first_rows (hash_key (fetched_id order) # seen) rest
      else first_rows seen rest)"

definition merged_row :: "order list \<Rightarrow> order \<Rightarrow> order" where
  "merged_row cache order =
     (case first_existing cache (fetched_id order) of
        None \<Rightarrow> order
      | Some existing \<Rightarrow> preserve_editable_fields order existing)"

section \<open>Flag evaluation\<close>


lemma flag_spellings:
  "\<not> normalize_flag_value (VStr [])" "\<not> normalize_flag_value (VStr ''FALSE'')"
  "normalize_flag_value (VStr ''TRUE'')" "normalize_flag_value (VStr '' Yes '')"
  by code_simp+


lemma staged_order_flags:
  "get_order_stage_flags (staged_order t ''FALSE'' ''FALSE'' ''FALSE'') = (False, False, False)"
  "get_order_stage_flags (staged_order t ''TRUE'' ''TRUE'' ''FALSE'') = (True, True, False)"
  "get_order_stage_flags (staged_order t ''TRUE'' ''TRUE'' ''TRUE'') = (True, True, True)"
  "get_order_stage_flags (staged_order t ''TRUE'' ''FALSE'' ''TRUE'') = (True, False, True)"
  using flag_spellings
  by (simp_all add: get_order_stage_flags_def staged_order_def dget_def py_or_def)

lemma staged_order_identifier:
  "t \<noteq> [] \<Longrightarrow> get_order_identifier (staged_order t p r s) VNone = Some t"
  by (simp add: get_order_identifier_def staged_order_def dget_def)

lemma complete_iff_flags:
  "is_order_marked_complete order = (get_order_stage_flags order = (True, True, True))"
  by (auto simp: is_order_marked_complete_def split: prod.splits)

section \<open>The completion tracker\<close>

lemma tracking_no_identifier:
  "get_order_identifier order hint = None \<Longrightarrow>
   update_order_completion_tracking ts order hint lg = lg"
  by (simp add: update_order_completion_tracking_def)

lemma tracking_rising_edge:
  "get_order_identifier order hint = Some i \<Longrightarrow> is_order_marked_complete order \<Longrightarrow>
   \<not> was_complete lg i \<Longrightarrow>
   update_order_completion_tracking ts order hint lg =
     lg(i \<mapsto> \<lparr>is_complete = True, completed_at = Some ts,
               history = trim_history (stored_history lg i @ [ts])\<rparr>)"
  by (simp add: update_order_completion_tracking_def)

lemma tracking_falling_edge:
  "get_order_identifier order hint = Some i \<Longrightarrow> \<not> is_order_marked_complete order \<Longrightarrow>
   was_complete lg i \<Longrightarrow>
   \<exists>e. lg i = Some e \<and>
     update_order_completion_tracking ts order hint lg =
       lg(i \<mapsto> e\<lparr>is_complete := False, completed_at := None\<rparr>)"
  by (auto simp: update_order_completion_tracking_def was_complete_def split: option.splits)

lemma tracking_level:
  "is_order_marked_complete order = was_complete lg i \<Longrightarrow>
   get_order_identifier order hint = Some i \<Longrightarrow>
   update_order_completion_tracking ts order hint lg = lg"
  by (simp add: update_order_completion_tracking_def)

text \<open>
  C1. The tracker is edge-triggered. For an order resolving to the identifier \<open>i\<close>:
  when the three flags are all true and the stored \<open>is_complete\<close> is false, the entry
  becomes complete, the clock reading \<open>ts\<close> is appended to the history (one new element,
  the list then cut to its last 50) and \<open>completed_at\<close> is \<open>ts\<close>; when the stored flag
  is true and the flags are not all true, \<open>is_complete\<close> becomes false and
  \<open>completed_at\<close> null, the history staying as it is; when the stored flag equals the
  conjunction of the flags, the log is unchanged; an order without identifier changes
  nothing. Driving a fresh identifier through F,F,F then T,T,F then T,T,T gives the one
  history entry \<open>t3\<close>; T,F,T then clears \<open>completed_at\<close> and keeps the entry; completing
  again appends the second entry \<open>t5\<close>.
\<close>

theorem completion_tracking_edge_triggered:
  "(get_order_identifier order hint = None \<longrightarrow>
      update_order_completion_tracking ts order hint lg = lg) \<and>
   (get_order_identifier order hint = Some i \<and> is_order_marked_complete order \<and>
    \<not> was_complete lg i \<longrightarrow>
      update_order_completion_tracking ts order hint lg =
        lg(i \<mapsto> \<lparr>is_complete = True, completed_at = Some ts,
                  history = trim_history (stored_history lg i @ [ts])\<rparr>) \<and>
      (length (stored_history lg i) < 50 \<longrightarrow>
         trim_history (stored_history lg i @ [ts]) = stored_history lg i @ [ts])) \<and>
   (get_order_identifier order hint = Some i \<and> \<not> is_order_marked_complete order \<and>
    was_complete lg i \<longrightarrow>
      (\<exists>e. lg i = Some e \<and>
         update_order_completion_tracking ts order hint lg =
           lg(i \<mapsto> e\<lparr>is_complete := False, completed_at := None\<rparr>))) \<and>
   (get_order_identifier order hint = Some i \<and>
    is_order_marked_complete order = was_complete lg i \<longrightarrow>
      update_order_completion_tracking ts order hint lg = lg) \<and>
   (get_order_identifier o1 h1 = Some i \<and> get_order_identifier o2 h2 = Some i \<and>
    get_order_identifier o3 h3 = Some i \<and> get_order_identifier o4 h4 = Some i \<and>
    get_order_identifier o5 h5 = Some i \<and>
    get_order_stage_flags o1 = (False, False, False) \<and>
    get_order_stage_flags o2 = (True, True, False) \<and>
    get_order_stage_flags o3 = (True, True, True) \<and>
    get_order_stage_flags o4 = (True, False, True) \<and>
    get_order_stage_flags o5 = (True, True, True) \<and> lg i = None \<longrightarrow>
      (let lg1 = update_order_completion_tracking t1 o1 h1 lg;
           lg2 = update_order_completion_tracking t2 o2 h2 lg1;
           lg3 = update_order_completion_tracking t3 o3 h3 lg2;
           lg4 = update_order_completion_tracking t4 o4 h4 lg3;
           lg5 = update_order_completion_tracking t5 o5 h5 lg4
       in lg1 i = None \<and> lg2 i = None \<and>
          lg3 i = Some \<lparr>is_complete = True, completed_at = Some t3, history = [t3]\<rparr> \<and>
          lg4 i = Some \<lparr>is_complete = False, completed_at = None, history = [t3]\<rparr> \<and>
          lg5 i = Some \<lparr>is_complete = True, completed_at = Some t5, history = [t3, t5]\<rparr>))"
proof -
  have scenario: "lg1 i = None \<and> lg2 i = None \<and>
          lg3 i = Some \<lparr>is_complete = True, completed_at = Some t3, history = [t3]\<rparr> \<and>
          lg4 i = Some \<lparr>is_complete = False, completed_at = None, history = [t3]\<rparr> \<and>
          lg5 i = Some \<lparr>is_complete = True, completed_at = Some t5, history = [t3, t5]\<rparr>"
    if ids: "get_order_identifier o1 h1 = Some i" "get_order_identifier o2 h2 = Some i"
      "get_order_identifier o3 h3 = Some i" "get_order_identifier o4 h4 = Some i"
      "get_order_identifier o5 h5 = Some i"
    and flags: "get_order_stage_flags o1 = (False, False, False)"
      "get_order_stage_flags o2 = (True, True, False)"
      "get_order_stage_flags o3 = (True, True, True)"
      "get_order_stage_flags o4 = (True, False, True)"
      "get_order_stage_flags o5 = (True, True, True)"
    and fresh: "lg i = None"
    and defs: "lg1 = update_order_completion_tracking t1 o1 h1 lg"
      "lg2 = update_order_completion_tracking t2 o2 h2 lg1"
      "lg3 = update_order_completion_tracking t3 o3 h3 lg2"
      "lg4 = update_order_completion_tracking t4 o4 h4 lg3"
      "lg5 = update_order_completion_tracking t5 o5 h5 lg4"
    for lg1 lg2 lg3 lg4 lg5
  proof -
    have 1: "lg1 = lg"
      using ids flags fresh unfolding defs
      by (simp add: update_order_completion_tracking_def complete_iff_flags was_complete_def)
    have 2: "lg2 = lg"
      using ids flags fresh unfolding defs(2) 1
      by (simp add: update_order_completion_tracking_def complete_iff_flags was_complete_def)
    have 3: "lg3 = lg(i \<mapsto> \<lparr>is_complete = True, completed_at = Some t3, history = [t3]\<rparr>)"
      using ids flags fresh unfolding defs(3) 2
      by (simp add: update_order_completion_tracking_def complete_iff_flags was_complete_def
          stored_history_def trim_history_def)
    have 4: "lg4 = lg(i \<mapsto> \<lparr>is_complete = False, completed_at = None, history = [t3]\<rparr>)"
      using ids flags unfolding defs(4) 3
      by (simp add: update_order_completion_tracking_def complete_iff_flags was_complete_def)
    have 5: "lg5 = lg(i \<mapsto> \<lparr>is_complete = True, completed_at = Some t5, history = [t3, t5]\<rparr>)"
      using ids flags unfolding defs(5) 4
      by (simp add: update_order_completion_tracking_def complete_iff_flags was_complete_def
          stored_history_def trim_history_def)
    show ?thesis using 1 2 3 4 5 fresh by simp
  qed
  show ?thesis
    using tracking_no_identifier tracking_rising_edge tracking_falling_edge tracking_level scenario
    by (simp add: trim_history_def Let_def)
qed

text \<open>
  The scenario on the order T1 of the sheet, from the empty log, with the clock readings
  \<open>a\<close> to \<open>e\<close>; and the falling edge on a log that holds T1 as complete.
\<close>

theorem completion_tracking_edge_triggered_witness:
  "(let lg1 = update_order_completion_tracking ''a'' (staged_order ''T1'' ''FALSE'' ''FALSE'' ''FALSE'') VNone Map.empty;
        lg2 = update_order_completion_tracking ''b'' (staged_order ''T1'' ''TRUE'' ''TRUE'' ''FALSE'') VNone lg1;
        lg3 = update_order_completion_tracking ''c'' (staged_order ''T1'' ''TRUE'' ''TRUE'' ''TRUE'') VNone lg2;
        lg4 = update_order_completion_tracking ''d'' (staged_order ''T1'' ''TRUE'' ''FALSE'' ''TRUE'') VNone lg3;
        lg5 = update_order_completion_tracking ''e'' (staged_order ''T1'' ''TRUE'' ''TRUE'' ''TRUE'') VNone lg4
    in lg1 ''T1'' = None \<and> lg2 ''T1'' = None \<and>
       lg3 ''T1'' = Some \<lparr>is_complete = True, completed_at = Some ''c'', history = [''c'']\<rparr> \<and>
       lg4 ''T1'' = Some \<lparr>is_complete = False, completed_at = None, history = [''c'']\<rparr> \<and>
       lg5 ''T1'' = Some \<lparr>is_complete = True, completed_at = Some ''e'', history = [''c'', ''e'']\<rparr>) \<and>
   update_order_completion_tracking ''c'' (staged_order ''T1'' ''TRUE'' ''TRUE'' ''TRUE'') VNone Map.empty =
     [''T1'' \<mapsto> \<lparr>is_complete = True, completed_at = Some ''c'', history = [''c'']\<rparr>] \<and>
   (\<exists>e. [''T1'' \<mapsto> \<lparr>is_complete = True, completed_at = Some ''c'', history = [''c'']\<rparr>] ''T1'' = Some e \<and>
      update_order_completion_tracking ''d'' (staged_order ''T1'' ''TRUE'' ''FALSE'' ''TRUE'') VNone
        [''T1'' \<mapsto> \<lparr>is_complete = True, completed_at = Some ''c'', history = [''c'']\<rparr>] =
      [''T1'' \<mapsto> \<lparr>is_complete = True, completed_at = Some ''c'', history = [''c'']\<rparr>]
        (''T1'' \<mapsto> e\<lparr>is_complete := False, completed_at := None\<rparr>))"
  using
    completion_tracking_edge_triggered [where i = "''T1''" and lg = Map.empty
      and order = "staged_order ''T1'' ''TRUE'' ''TRUE'' ''TRUE''" and hint = VNone and ts = "''c''"
      and ?o1.0 = "staged_order ''T1'' ''FALSE'' ''FALSE'' ''FALSE''" and ?h1.0 = VNone and ?t1.0 = "''a''"
      and ?o2.0 = "staged_order ''T1'' ''TRUE'' ''TRUE'' ''FALSE''" and ?h2.0 = VNone and ?t2.0 = "''b''"
      and ?o3.0 = "staged_order ''T1'' ''TRUE'' ''TRUE'' ''TRUE''" and ?h3.0 = VNone and ?t3.0 = "''c''"
      and ?o4.0 = "staged_order ''T1'' ''TRUE'' ''FALSE'' ''TRUE''" and ?h4.0 = VNone and ?t4.0 = "''d''"
      and ?o5.0 = "staged_order ''T1'' ''TRUE'' ''TRUE'' ''TRUE''" and ?h5.0 = VNone and ?t5.0 = "''e''"]
    completion_tracking_edge_triggered [where i = "''T1''"
      and lg = "[''T1'' \<mapsto> \<lparr>is_complete = True, completed_at = Some ''c'', history = [''c'']\<rparr>]"
      and order = "staged_order ''T1'' ''TRUE'' ''FALSE'' ''TRUE''" and hint = VNone and ts = "''d''"]
  by (simp add: staged_order_flags staged_order_identifier complete_iff_flags was_complete_def
      stored_history_def trim_history_def)

section \<open>The history cap and the reconciliation pass\<close>

lemma trim_history_drop: "trim_history h = drop (length h - 50) h"
  by (simp add: trim_history_def)

lemma trim_history_length: "length (trim_history h) \<le> 50"
  by (simp add: trim_history_def)

lemma trim_history_append: "trim_history (trim_history a @ b) = trim_history (a @ b)"
  by (cases "length a \<le> 50") (simp_all add: trim_history_drop add.commute)

lemma tracking_bounded:
  "history_bounded lg \<Longrightarrow> history_bounded (update_order_completion_tracking ts order hint lg)"
  unfolding history_bounded_def update_order_completion_tracking_def
  by (auto simp: trim_history_length Let_def split: option.splits)

lemma remove_bounded:
  "history_bounded lg \<Longrightarrow> history_bounded (remove_order_completion_entry x lg)"
  unfolding history_bounded_def remove_order_completion_entry_def
  by (auto split: option.splits)

lemma cleared_refl: "cleared lg lg"
  by (simp add: cleared_def)

lemma cleared_trans:
  assumes ab: "cleared a b" and bc: "cleared b c"
  shows "cleared a c"
  unfolding cleared_def
proof
  fix j
  from ab have A: "b j = a j \<or> (\<exists>e. a j = Some e \<and> is_complete e \<and>
      b j = Some (e\<lparr>is_complete := False, completed_at := None\<rparr>))"
    by (simp add: cleared_def)
  from bc have B: "c j = b j \<or> (\<exists>e. b j = Some e \<and> is_complete e \<and>
      c j = Some (e\<lparr>is_complete := False, completed_at := None\<rparr>))"
    by (simp add: cleared_def)
  from A B show "c j = a j \<or> (\<exists>e. a j = Some e \<and> is_complete e \<and>
      c j = Some (e\<lparr>is_complete := False, completed_at := None\<rparr>))"
    by (elim disjE exE conjE; simp)
qed

lemma cleared_incomplete:
  assumes "cleared lg lg'" and "lg i = Some e" and "\<not> is_complete e"
  shows "lg' i = Some e"
proof -
  from assms(1) have "lg' i = lg i \<or> (\<exists>e. lg i = Some e \<and> is_complete e \<and>
      lg' i = Some (e\<lparr>is_complete := False, completed_at := None\<rparr>))"
    by (simp add: cleared_def)
  with assms(2,3) show ?thesis by auto
qed

lemma cleared_dom:
  assumes "cleared lg lg'"
  shows "(lg' i = None) = (lg i = None)"
proof -
  from assms have "lg' i = lg i \<or> (\<exists>e. lg i = Some e \<and> is_complete e \<and>
      lg' i = Some (e\<lparr>is_complete := False, completed_at := None\<rparr>))"
    by (simp add: cleared_def)
  then show ?thesis by auto
qed

lemma cleared_history:
  assumes "cleared lg lg'"
  shows "stored_history lg' i = stored_history lg i"
proof -
  from assms have "lg' i = lg i \<or> (\<exists>e. lg i = Some e \<and> is_complete e \<and>
      lg' i = Some (e\<lparr>is_complete := False, completed_at := None\<rparr>))"
    by (simp add: cleared_def)
  then show ?thesis by (auto simp: stored_history_def)
qed

lemma cleared_bounded:
  assumes "cleared lg lg'" and "history_bounded lg"
  shows "history_bounded lg'"
  unfolding history_bounded_def
proof (intro allI impI)
  fix i e'
  assume e': "lg' i = Some e'"
  have "stored_history lg' i = stored_history lg i"
    using assms(1) by (rule cleared_history)
  moreover from e' cleared_dom[OF assms(1), of i] obtain e where e: "lg i = Some e"
    by auto
  ultimately have "history e' = history e"
    using e' by (simp add: stored_history_def)
  with assms(2) e show "length (history e') \<le> 50"
    by (simp add: history_bounded_def)
qed

lemma reconcile_cleared: "cleared lg (fst (reconcile_order cal order c lg))"
  unfolding cleared_def reconcile_order_def
  by (auto split: option.splits)

lemma reconcile_stale:
  "get_order_identifier order VNone = Some i \<Longrightarrow> \<not> c \<Longrightarrow>
   fst (reconcile_order cal order c lg) i = Some e' \<Longrightarrow> \<not> is_complete e'"
  unfolding reconcile_order_def
  by (auto split: option.splits if_splits)

lemma dashboard_order_log:
  "completion_log_now (dashboard_order cal order st) =
     fst (reconcile_order cal order (is_order_marked_complete order) (completion_log_now st))"
  unfolding dashboard_order_def is_order_marked_complete_def
  by (auto simp: Let_def split: prod.splits option.splits)

lemma dashboard_fold_cleared:
  "cleared (completion_log_now st) (completion_log_now (fold (dashboard_order cal) os st))"
proof (induction os arbitrary: st)
  case Nil
  show ?case by (simp add: cleared_refl)
next
  case (Cons a os)
  have "cleared (completion_log_now st) (completion_log_now (dashboard_order cal a st))"
    by (simp add: dashboard_order_log reconcile_cleared)
  from cleared_trans[OF this Cons.IH] show ?case by simp
qed

lemma dashboard_fold_stale:
  "order \<in> set os \<Longrightarrow> get_order_identifier order VNone = Some i \<Longrightarrow>
   \<not> is_order_marked_complete order \<Longrightarrow>
   completion_log_now (fold (dashboard_order cal) os st) i = Some e' \<Longrightarrow> \<not> is_complete e'"
proof (induction os arbitrary: st)
  case Nil
  then show ?case by simp
next
  case (Cons a os)
  let ?st1 = "dashboard_order cal a st"
  show ?case
  proof (cases "order \<in> set os")
    case True
    with Cons show ?thesis by simp
  next
    case False
    with Cons.prems have a: "a = order" by simp
    have cl: "cleared (completion_log_now ?st1)
        (completion_log_now (fold (dashboard_order cal) os ?st1))"
      by (rule dashboard_fold_cleared)
    from Cons.prems(4)
    have fin: "completion_log_now (fold (dashboard_order cal) os ?st1) i = Some e'"
      by simp
    with cleared_dom[OF cl, of i] obtain e1 where e1: "completion_log_now ?st1 i = Some e1"
      by auto
    have "\<not> is_complete e1"
      using reconcile_stale[OF Cons.prems(2), of "is_order_marked_complete order" cal
          "completion_log_now st" e1] Cons.prems(3) e1
      by (simp add: a dashboard_order_log)
    from cleared_incomplete[OF cl e1 this] fin this show ?thesis by simp
  qed
qed

lemma dashboard_log:
  "snd (compute_dashboard_order_stats cal os lg) =
     completion_log_now (fold (dashboard_order cal) os
       \<lparr>total_completed = 0, pending = 0, produce_only = 0, ready_total = 0,
        shipped_total = 0, daily_completed = 0, day_counts = (\<lambda>_. 0),
        stage_day_counts = (\<lambda>_. (0, 0, 0)), completion_log_now = lg, log_dirty = False\<rparr>)"
  by (simp add: compute_dashboard_order_stats_def Let_def)

lemma dashboard_cleared: "cleared lg (snd (compute_dashboard_order_stats cal os lg))"
  using dashboard_fold_cleared[of "\<lparr>total_completed = 0, pending = 0, produce_only = 0,
        ready_total = 0, shipped_total = 0, daily_completed = 0, day_counts = (\<lambda>_. 0),
        stage_day_counts = (\<lambda>_. (0, 0, 0)), completion_log_now = lg, log_dirty = False\<rparr>" cal os]
  by (simp add: dashboard_log)

lemma cycle_entry:
  assumes "get_order_identifier done hint = Some i" "get_order_identifier undone hint = Some i"
    "is_order_marked_complete done" "\<not> is_order_marked_complete undone" "\<not> was_complete lg i"
  shows "completion_cycle done undone hint ts lg i =
     Some \<lparr>is_complete = False, completed_at = None,
           history = trim_history (stored_history lg i @ [ts])\<rparr>"
  using assms
  by (simp add: completion_cycle_def update_order_completion_tracking_def was_complete_def)

lemma cycles_history:
  assumes "get_order_identifier done hint = Some i" "get_order_identifier undone hint = Some i"
    "is_order_marked_complete done" "\<not> is_order_marked_complete undone"
  shows "\<not> was_complete lg i \<Longrightarrow>
     stored_history (fold (completion_cycle done undone hint) tss lg) i =
       (if tss = [] then stored_history lg i else trim_history (stored_history lg i @ tss)) \<and>
     \<not> was_complete (fold (completion_cycle done undone hint) tss lg) i"
proof (induction tss arbitrary: lg)
  case Nil
  then show ?case by simp
next
  case (Cons t tss)
  let ?lg1 = "completion_cycle done undone hint t lg"
  have e: "?lg1 i = Some \<lparr>is_complete = False, completed_at = None,
      history = trim_history (stored_history lg i @ [t])\<rparr>"
    using assms Cons.prems by (rule cycle_entry)
  then have nc: "\<not> was_complete ?lg1 i" and h: "stored_history ?lg1 i = trim_history (stored_history lg i @ [t])"
    by (simp_all add: was_complete_def stored_history_def)
  from Cons.IH[OF nc] h show ?case
    by (simp add: trim_history_append)
qed
text \<open>
  C5. Every history of the log holds at most 50 timestamps, oldest first, and every
  operation on the log keeps the bound: the tracker, the pass of the dashboard and the
  removal of an entry. Completing and reverting one identifier once for each clock reading
  of \<open>tss\<close>, in turn, leaves the last 50 of the old history followed by \<open>tss\<close>; 51
  cycles on a fresh identifier leave exactly 50 entries, all but the first reading.
\<close>

theorem completion_history_capped:
  "(history_bounded lg \<longrightarrow>
      history_bounded (update_order_completion_tracking ts order hint lg) \<and>
      history_bounded (snd (compute_dashboard_order_stats cal os lg)) \<and>
      history_bounded (remove_order_completion_entry x lg)) \<and>
   (get_order_identifier done h = Some i \<and> get_order_identifier undone h = Some i \<and>
    is_order_marked_complete done \<and> \<not> is_order_marked_complete undone \<and>
    \<not> was_complete lg i \<and> length (stored_history lg i) \<le> 50 \<longrightarrow>
      stored_history (fold (completion_cycle done undone h) tss lg) i =
        drop (length (stored_history lg i @ tss) - 50) (stored_history lg i @ tss)) \<and>
   (get_order_identifier done h = Some i \<and> get_order_identifier undone h = Some i \<and>
    is_order_marked_complete done \<and> \<not> is_order_marked_complete undone \<and>
    lg i = None \<and> length tss = 51 \<longrightarrow>
      stored_history (fold (completion_cycle done undone h) tss lg) i = tl tss \<and>
      length (stored_history (fold (completion_cycle done undone h) tss lg) i) = 50)"
proof (intro conjI impI)
  assume "history_bounded lg"
  then show "history_bounded (update_order_completion_tracking ts order hint lg)"
    by (rule tracking_bounded)
next
  assume "history_bounded lg"
  with dashboard_cleared show "history_bounded (snd (compute_dashboard_order_stats cal os lg))"
    by (rule cleared_bounded)
next
  assume "history_bounded lg"
  then show "history_bounded (remove_order_completion_entry x lg)"
    by (rule remove_bounded)
next
  assume a: "get_order_identifier done h = Some i \<and> get_order_identifier undone h = Some i \<and>
    is_order_marked_complete done \<and> \<not> is_order_marked_complete undone \<and>
    \<not> was_complete lg i \<and> length (stored_history lg i) \<le> 50"
  then have "stored_history (fold (completion_cycle done undone h) tss lg) i =
       (if tss = [] then stored_history lg i else trim_history (stored_history lg i @ tss))"
    using cycles_history[of "done" h i undone lg tss] by simp
  with a show "stored_history (fold (completion_cycle done undone h) tss lg) i =
        drop (length (stored_history lg i @ tss) - 50) (stored_history lg i @ tss)"
    by (simp add: trim_history_drop)
next
  assume a: "get_order_identifier done h = Some i \<and> get_order_identifier undone h = Some i \<and>
    is_order_marked_complete done \<and> \<not> is_order_marked_complete undone \<and>
    lg i = None \<and> length tss = 51"
  then have "stored_history (fold (completion_cycle done undone h) tss lg) i =
       (if tss = [] then stored_history lg i else trim_history (stored_history lg i @ tss))"
    using cycles_history[of "done" h i undone lg tss] by (simp add: was_complete_def)
  with a have *: "stored_history (fold (completion_cycle done undone h) tss lg) i = drop 1 tss"
    by (auto simp: trim_history_drop stored_history_def)
  then show "stored_history (fold (completion_cycle done undone h) tss lg) i = tl tss"
    by (simp add: drop_Suc)
  from * a show "length (stored_history (fold (completion_cycle done undone h) tss lg) i) = 50"
    by simp
qed

lemma history_bounded_empty: "history_bounded Map.empty"
  by (simp add: history_bounded_def)

text \<open>Fifty-one cycles of the order T1 from the empty log, at the clock readings 1 to 51.\<close>

theorem completion_history_capped_witness:
  "history_bounded Map.empty \<and>
   history_bounded (update_order_completion_tracking ''c''
     (staged_order ''T1'' ''TRUE'' ''TRUE'' ''TRUE'') VNone Map.empty) \<and>
   length (map str_nat [1..<52]) = 51 \<and>
   stored_history (fold (completion_cycle (staged_order ''T1'' ''TRUE'' ''TRUE'' ''TRUE'')
       (staged_order ''T1'' ''TRUE'' ''FALSE'' ''TRUE'') VNone) (map str_nat [1..<52]) Map.empty) ''T1'' =
     tl (map str_nat [1..<52]) \<and>
   length (stored_history (fold (completion_cycle (staged_order ''T1'' ''TRUE'' ''TRUE'' ''TRUE'')
       (staged_order ''T1'' ''TRUE'' ''FALSE'' ''TRUE'') VNone) (map str_nat [1..<52]) Map.empty) ''T1'') = 50"
  using completion_history_capped [where lg = Map.empty and i = "''T1''" and h = VNone
      and hint = VNone and ts = "''c''" and order = "staged_order ''T1'' ''TRUE'' ''TRUE'' ''TRUE''"
      and ?done = "staged_order ''T1'' ''TRUE'' ''TRUE'' ''TRUE''"
      and undone = "staged_order ''T1'' ''TRUE'' ''FALSE'' ''TRUE''"
      and tss = "map str_nat [1..<52]" and cal = blank_calendar and os = "[]" and x = None]
    history_bounded_empty
  by (simp add: staged_order_flags staged_order_identifier complete_iff_flags)

text \<open>
  C6, as the code has it. After the pass of the dashboard over a view: an entry whose
  identifier is that of an order of the view with flags not all true is not complete
  (a stale completion is cleared); an entry stored as incomplete is left exactly as it is,
  also when the flags of its order are all true; no history changes, and no entry is
  added or removed.
\<close>

theorem dashboard_pass_clears_stale_completions:
  "(\<forall>order \<in> set os. \<forall>i e'.
      get_order_identifier order VNone = Some i \<and> \<not> is_order_marked_complete order \<and>
      snd (compute_dashboard_order_stats cal os lg) i = Some e' \<longrightarrow> \<not> is_complete e') \<and>
   (\<forall>i e. lg i = Some e \<and> \<not> is_complete e \<longrightarrow>
      snd (compute_dashboard_order_stats cal os lg) i = Some e) \<and>
   (\<forall>i. stored_history (snd (compute_dashboard_order_stats cal os lg)) i = stored_history lg i) \<and>
   (\<forall>i. (snd (compute_dashboard_order_stats cal os lg) i = None) = (lg i = None))"
proof (intro conjI ballI allI impI)
  fix order i e'
  assume a: "order \<in> set os"
    and b: "get_order_identifier order VNone = Some i \<and> \<not> is_order_marked_complete order \<and>
      snd (compute_dashboard_order_stats cal os lg) i = Some e'"
  from b have b1: "get_order_identifier order VNone = Some i"
    and b2: "\<not> is_order_marked_complete order"
    and b3: "snd (compute_dashboard_order_stats cal os lg) i = Some e'"
    by simp_all
  from b3[unfolded dashboard_log] show "\<not> is_complete e'"
    by (rule dashboard_fold_stale[OF a b1 b2])
next
  fix i e
  assume c: "lg i = Some e \<and> \<not> is_complete e"
  have "cleared lg (snd (compute_dashboard_order_stats cal os lg))"
    by (rule dashboard_cleared)
  then show "snd (compute_dashboard_order_stats cal os lg) i = Some e"
    using c by (blast intro: cleared_incomplete)
next
  fix i
  show "stored_history (snd (compute_dashboard_order_stats cal os lg)) i = stored_history lg i"
    using dashboard_cleared by (rule cleared_history)
  show "(snd (compute_dashboard_order_stats cal os lg) i = None) = (lg i = None)"
    using dashboard_cleared by (rule cleared_dom)
qed

lemma dashboard_stale_example:
  "snd (compute_dashboard_order_stats blank_calendar
      [staged_order ''T1'' ''TRUE'' ''FALSE'' ''TRUE'']
      [''T1'' \<mapsto> \<lparr>is_complete = True, completed_at = Some ''c'', history = [''c'']\<rparr>]) =
   [''T1'' \<mapsto> \<lparr>is_complete = False, completed_at = None, history = [''c'']\<rparr>]"
  by (simp add: compute_dashboard_order_stats_def dashboard_order_def reconcile_order_def
      staged_order_flags staged_order_identifier blank_calendar_def Let_def)

text \<open>The order T1 with Ready unset, and a log that still holds T1 as complete.\<close>

theorem dashboard_pass_clears_stale_completions_witness:
  "staged_order ''T1'' ''TRUE'' ''FALSE'' ''TRUE'' \<in> set [staged_order ''T1'' ''TRUE'' ''FALSE'' ''TRUE''] \<and>
   get_order_identifier (staged_order ''T1'' ''TRUE'' ''FALSE'' ''TRUE'') VNone = Some ''T1'' \<and>
   \<not> is_order_marked_complete (staged_order ''T1'' ''TRUE'' ''FALSE'' ''TRUE'') \<and>
   snd (compute_dashboard_order_stats blank_calendar
      [staged_order ''T1'' ''TRUE'' ''FALSE'' ''TRUE'']
      [''T1'' \<mapsto> \<lparr>is_complete = True, completed_at = Some ''c'', history = [''c'']\<rparr>]) ''T1'' =
     Some \<lparr>is_complete = False, completed_at = None, history = [''c'']\<rparr> \<and>
   stored_history (snd (compute_dashboard_order_stats blank_calendar
      [staged_order ''T1'' ''TRUE'' ''FALSE'' ''TRUE'']
      [''T1'' \<mapsto> \<lparr>is_complete = True, completed_at = Some ''c'', history = [''c'']\<rparr>])) ''T1'' = [''c'']"
  using dashboard_pass_clears_stale_completions [where cal = blank_calendar
      and os = "[staged_order ''T1'' ''TRUE'' ''FALSE'' ''TRUE'']"
      and lg = "[''T1'' \<mapsto> \<lparr>is_complete = True, completed_at = Some ''c'', history = [''c'']\<rparr>]"]
    dashboard_stale_example
  by (simp add: staged_order_flags staged_order_identifier complete_iff_flags stored_history_def)

text \<open>
  C6 as the specification states it fails: the order T1 has its three flags true, the log
  holds T1 as incomplete, and the pass leaves the entry incomplete. The calendar is not
  consulted on this input.
\<close>

theorem dashboard_pass_counterexample:
  "get_order_identifier (staged_order ''T1'' ''TRUE'' ''TRUE'' ''TRUE'') VNone = Some ''T1'' \<and>
   is_order_marked_complete (staged_order ''T1'' ''TRUE'' ''TRUE'' ''TRUE'') \<and>
   snd (compute_dashboard_order_stats blank_calendar
      [staged_order ''T1'' ''TRUE'' ''TRUE'' ''TRUE'']
      [''T1'' \<mapsto> \<lparr>is_complete = False, completed_at = None, history = []\<rparr>]) ''T1'' =
     Some \<lparr>is_complete = False, completed_at = None, history = []\<rparr>"
  by (simp add: compute_dashboard_order_stats_def dashboard_order_def reconcile_order_def
      staged_order_flags staged_order_identifier complete_iff_flags blank_calendar_def Let_def)

section \<open>Order of the unified view\<close>

lemma sort_reverse_mset: "mset (sort_reverse f xs) = mset xs"
  by (simp add: sort_reverse_def)

lemma sort_reverse_sorted: "sorted (rev (map f (sort_reverse f xs)))"
  by (simp add: sort_reverse_def rev_map)

lemma sort_reverse_stable:
  "filter (\<lambda>x. f x = k) (sort_reverse f xs) = filter (\<lambda>x. f x = k) xs"
proof -
  have "filter (\<lambda>x. f x = k) (sort_key f (rev xs)) = filter (\<lambda>x. f x = k) (rev xs)"
    by (rule sort_key_stable)
  then have "rev (filter (\<lambda>x. f x = k) (sort_key f (rev xs))) = filter (\<lambda>x. f x = k) xs"
    by (simp add: rev_filter)
  then show ?thesis
    by (simp add: sort_reverse_def rev_filter)
qed

lemma dget_dset_same: "dget (dset d k v) k = v"
  by (induction d) (auto simp: dget_def)

lemma str_key_dset: "is_str_key (sort_key_of (dset d ''_sortKey'' (VStr s)))"
  by (simp add: sort_key_of_def dget_dset_same py_or_def is_str_key_def)

lemma transform_order_str_key: "is_str_key (sort_key_of (transform_order lib u order))"
  unfolding transform_order_def Let_def by (rule str_key_dset)

lemma transformed_orders_str_keys:
  "\<forall>x \<in> set (transformed_orders lib clock cache). is_str_key (sort_key_of x)"
  by (auto simp: transformed_orders_def transform_order_str_key)

text \<open>
  C7. Whenever the view is returned, it holds the manual orders and the transformed cache,
  its sort keys descend, and the orders of one sort key stand in their order before the
  sort, the manual ones first and the synced ones after them: a manual order comes before
  every synced order of the same \<^verbatim>\<open>_sortKey\<close>. The view is returned whenever the sort
  keys of the manual orders are strings.
\<close>

theorem unified_view_sorted_manual_first:
  "(transform_orders_for_frontend lib clock manual st = (Inr view, st') \<longrightarrow>
      mset view = mset (manual_payloads clock (length (orders_cache st')) manual @
                        transformed_orders lib clock (orders_cache st')) \<and>
      sorted (rev (map sort_key_of view)) \<and>
      (\<forall>k. filter (\<lambda>x. sort_key_of x = k) view =
            filter (\<lambda>x. sort_key_of x = k) (manual_payloads clock (length (orders_cache st')) manual) @
            filter (\<lambda>x. sort_key_of x = k) (transformed_orders lib clock (orders_cache st')))) \<and>
   ((\<forall>m \<in> set manual. \<forall>u. is_str_key (sort_key_of (manual_payload u m))) \<longrightarrow>
      (\<exists>view. fst (transform_orders_for_frontend lib clock manual st) = Inr view))"
proof (intro conjI impI)
  define st1 where "st1 = (if orders_cache st = [] then load_cache st else st)"
  define combined where "combined = manual_payloads clock (length (orders_cache st1)) manual @
      transformed_orders lib clock (orders_cache st1)"
  {
    assume r: "transform_orders_for_frontend lib clock manual st = (Inr view, st')"
    then have st': "st' = st1" and view: "view = sort_reverse sort_key_of combined"
      by (auto simp: transform_orders_for_frontend_def Let_def st1_def combined_def
          split: if_splits)
    show "mset view = mset (manual_payloads clock (length (orders_cache st')) manual @
                        transformed_orders lib clock (orders_cache st'))"
      unfolding view st' combined_def by (rule sort_reverse_mset)
    show "sorted (rev (map sort_key_of view))"
      unfolding view by (rule sort_reverse_sorted)
    show "\<forall>k. filter (\<lambda>x. sort_key_of x = k) view =
            filter (\<lambda>x. sort_key_of x = k) (manual_payloads clock (length (orders_cache st')) manual) @
            filter (\<lambda>x. sort_key_of x = k) (transformed_orders lib clock (orders_cache st'))"
      unfolding view st' by (simp add: sort_reverse_stable combined_def)
  }
  assume m: "\<forall>m \<in> set manual. \<forall>u. is_str_key (sort_key_of (manual_payload u m))"
  have "\<forall>x \<in> set (manual_payloads clock (length (orders_cache st1)) manual). is_str_key (sort_key_of x)"
    using m by (auto simp: manual_payloads_def dest!: in_set_enumerate_eq[THEN iffD1])
  then have "\<forall>k \<in> set (map sort_key_of combined). is_str_key k"
    using transformed_orders_str_keys[of lib clock "orders_cache st1"]
    by (auto simp: combined_def)
  then show "\<exists>view. fst (transform_orders_for_frontend lib clock manual st) = Inr view"
    unfolding combined_def
    by (auto simp: transform_orders_for_frontend_def Let_def st1_def[symmetric])
qed

lemma view_example:
  "transform_orders_for_frontend blank_library (\<lambda>_. ''2025-01-02T00:00:00'') [example_manual]
      \<lparr>orders_cache = [example_synced], cache_file = None\<rparr> =
    (Inr [manual_payload ''2025-01-02T00:00:00'' example_manual,
          transform_order blank_library ''2025-01-02T00:00:00'' example_synced],
     \<lparr>orders_cache = [example_synced], cache_file = None\<rparr>)"
  by code_simp

lemma view_example_keys:
  "sort_key_of (manual_payload u example_manual) = SStr ''2025-01-02T00:00:00''"
  "sort_key_of (transform_order blank_library ''2025-01-02T00:00:00'' example_synced) =
     SStr ''2025-01-02T00:00:00''"
proof -
  show "sort_key_of (manual_payload u example_manual) = SStr ''2025-01-02T00:00:00''"
    by (simp add: manual_payload_def example_manual_def setdefault_def has_key_def
        sort_key_of_def dget_def py_or_def)
  show "sort_key_of (transform_order blank_library ''2025-01-02T00:00:00'' example_synced) =
     SStr ''2025-01-02T00:00:00''"
    by code_simp
qed

text \<open>
  The manual order M1 and the synced order T1 with the sort key 2025-01-02T00:00:00: the
  view lists M1 before T1.
\<close>

theorem unified_view_sorted_manual_first_witness:
  "transform_orders_for_frontend blank_library (\<lambda>_. ''2025-01-02T00:00:00'') [example_manual]
      \<lparr>orders_cache = [example_synced], cache_file = None\<rparr> =
    (Inr [manual_payload ''2025-01-02T00:00:00'' example_manual,
          transform_order blank_library ''2025-01-02T00:00:00'' example_synced],
     \<lparr>orders_cache = [example_synced], cache_file = None\<rparr>) \<and>
   sort_key_of (manual_payload ''2025-01-02T00:00:00'' example_manual) =
     sort_key_of (transform_order blank_library ''2025-01-02T00:00:00'' example_synced) \<and>
   sorted (rev (map sort_key_of [manual_payload ''2025-01-02T00:00:00'' example_manual,
          transform_order blank_library ''2025-01-02T00:00:00'' example_synced])) \<and>
   (\<forall>k. filter (\<lambda>x. sort_key_of x = k) [manual_payload ''2025-01-02T00:00:00'' example_manual,
          transform_order blank_library ''2025-01-02T00:00:00'' example_synced] =
        filter (\<lambda>x. sort_key_of x = k)
          (manual_payloads (\<lambda>_. ''2025-01-02T00:00:00'') 1 [example_manual]) @
        filter (\<lambda>x. sort_key_of x = k)
          (transformed_orders blank_library (\<lambda>_. ''2025-01-02T00:00:00'') [example_synced])) \<and>
   (\<exists>view. fst (transform_orders_for_frontend blank_library (\<lambda>_. ''2025-01-02T00:00:00'')
      [example_manual] \<lparr>orders_cache = [example_synced], cache_file = None\<rparr>) = Inr view)"
  using unified_view_sorted_manual_first [where lib = blank_library
      and clock = "\<lambda>_. ''2025-01-02T00:00:00''" and manual = "[example_manual]"
      and st = "\<lparr>orders_cache = [example_synced], cache_file = None\<rparr>"
      and st' = "\<lparr>orders_cache = [example_synced], cache_file = None\<rparr>"
      and view = "[manual_payload ''2025-01-02T00:00:00'' example_manual,
          transform_order blank_library ''2025-01-02T00:00:00'' example_synced]"]
    view_example view_example_keys
  by (simp add: is_str_key_def)

section \<open>Fetch failure\<close>

lemma limit_orders_Nil: "limit_orders e [] = []"
  by (simp add: limit_orders_def split: option.splits)

lemma add_new_orders_Nil: "add_new_orders cache seen [] = ([], seen)"
  by simp

lemma full_replace_Nil:
  "full_replace cache [] = filter (\<lambda>existing_order. truthy (cached_id existing_order)) cache"
  by (simp add: full_replace_def)

lemma quick_sync_Nil:
  "quick_sync cache [] = filter (\<lambda>existing_order. truthy (cached_id existing_order)) cache"
  by (simp add: quick_sync_def update_latest_def)

lemma latest_20_Nil: "latest_20 clock [] = []"
  by (simp add: latest_20_def sort_reverse_def)

lemma check_updated_Nil: "check_updated [] k acc = acc"
  by (simp add: check_updated_def new_orders_map_def split: prod.splits)

lemma fold_check_updated_Nil: "fold (check_updated []) ks acc = acc"
  by (induction ks arbitrary: acc) (simp_all add: check_updated_Nil)

lemma incremental_no_rows:
  "incremental_update_cache e (Some []) st = (Returned (VBool False), st)"
  by (simp add: incremental_update_cache_def limit_orders_Nil new_orders_keys_def
      fold_check_updated_Nil List.map_filter_simps)

text \<open>
  C8, as the code has it. When the fetch fails, that is when it returns \<^verbatim>\<open>None\<close>, each
  of the three merges leaves the cache as it is, in memory and on disk, and returns a
  value that is false (\<^verbatim>\<open>None\<close>, or \<^verbatim>\<open>False\<close> from the incremental merge). When
  the fetch returns no rows, the incremental merge does the same; the full replace and
  the quick sync go on as after any fetch: the cache becomes its rows that have an
  identifier, the image step runs and the file is written.
\<close>

theorem fetch_failure_is_noop:
  "update_cache e download_images None st = (Returned VNone, st) \<and>
   incremental_update_cache e None st = (Returned (VBool False), st) \<and>
   sync_latest_orders e clock None st = (Returned VNone, st) \<and>
   \<not> truthy VNone \<and> \<not> truthy (VBool False) \<and>
   incremental_update_cache e (Some []) st = (Returned (VBool False), st) \<and>
   full_replace (orders_cache st) (limit_orders e []) =
     filter (\<lambda>existing_order. truthy (cached_id existing_order)) (orders_cache st) \<and>
   quick_sync (orders_cache st) (latest_20 clock (limit_orders e [])) =
     filter (\<lambda>existing_order. truthy (cached_id existing_order)) (orders_cache st)"
proof -
  have "update_cache e download_images None st = (Returned VNone, st)"
    by (simp add: update_cache_def)
  moreover have "incremental_update_cache e None st = (Returned (VBool False), st)"
    by (simp add: incremental_update_cache_def)
  moreover have "sync_latest_orders e clock None st = (Returned VNone, st)"
    by (simp add: sync_latest_orders_def)
  ultimately show ?thesis
    by (simp add: incremental_no_rows limit_orders_Nil full_replace_Nil quick_sync_Nil
        latest_20_Nil)
qed

text \<open>A failed fetch and an empty fetch on a cache that holds the order T1.\<close>

theorem fetch_failure_is_noop_witness:
  "update_cache \<lparr>startup_mode = False, max_sync_orders = None, image_cached = (\<lambda>_. None),
       images_downloaded = False\<rparr> True None
     \<lparr>orders_cache = [staged_order ''T1'' ''TRUE'' ''FALSE'' ''FALSE''],
      cache_file = Some [staged_order ''T1'' ''TRUE'' ''FALSE'' ''FALSE'']\<rparr> =
   (Returned VNone,
     \<lparr>orders_cache = [staged_order ''T1'' ''TRUE'' ''FALSE'' ''FALSE''],
      cache_file = Some [staged_order ''T1'' ''TRUE'' ''FALSE'' ''FALSE'']\<rparr>) \<and>
   incremental_update_cache \<lparr>startup_mode = False, max_sync_orders = None,
       image_cached = (\<lambda>_. None), images_downloaded = False\<rparr> None
     \<lparr>orders_cache = [staged_order ''T1'' ''TRUE'' ''FALSE'' ''FALSE''],
      cache_file = Some [staged_order ''T1'' ''TRUE'' ''FALSE'' ''FALSE'']\<rparr> =
   (Returned (VBool False),
     \<lparr>orders_cache = [staged_order ''T1'' ''TRUE'' ''FALSE'' ''FALSE''],
      cache_file = Some [staged_order ''T1'' ''TRUE'' ''FALSE'' ''FALSE'']\<rparr>) \<and>
   sync_latest_orders \<lparr>startup_mode = False, max_sync_orders = None,
       image_cached = (\<lambda>_. None), images_downloaded = False\<rparr> (\<lambda>_. datetime_min) None
     \<lparr>orders_cache = [staged_order ''T1'' ''TRUE'' ''FALSE'' ''FALSE''],
      cache_file = Some [staged_order ''T1'' ''TRUE'' ''FALSE'' ''FALSE'']\<rparr> =
   (Returned VNone,
     \<lparr>orders_cache = [staged_order ''T1'' ''TRUE'' ''FALSE'' ''FALSE''],
      cache_file = Some [staged_order ''T1'' ''TRUE'' ''FALSE'' ''FALSE'']\<rparr>) \<and>
   incremental_update_cache \<lparr>startup_mode = False, max_sync_orders = None,
       image_cached = (\<lambda>_. None), images_downloaded = False\<rparr> (Some [])
     \<lparr>orders_cache = [staged_order ''T1'' ''TRUE'' ''FALSE'' ''FALSE''],
      cache_file = Some [staged_order ''T1'' ''TRUE'' ''FALSE'' ''FALSE'']\<rparr> =
   (Returned (VBool False),
     \<lparr>orders_cache = [staged_order ''T1'' ''TRUE'' ''FALSE'' ''FALSE''],
      cache_file = Some [staged_order ''T1'' ''TRUE'' ''FALSE'' ''FALSE'']\<rparr>)"
  using fetch_failure_is_noop [where e = "\<lparr>startup_mode = False, max_sync_orders = None,
          image_cached = (\<lambda>_. None), images_downloaded = False\<rparr>"
      and download_images = True and clock = "\<lambda>_. datetime_min"
      and st = "\<lparr>orders_cache = [staged_order ''T1'' ''TRUE'' ''FALSE'' ''FALSE''],
          cache_file = Some [staged_order ''T1'' ''TRUE'' ''FALSE'' ''FALSE'']\<rparr>"]
  by simp

text \<open>
  C8 as the specification states it fails on a fetch that returns no rows: the full
  replace drops the cached order whose identifier is under \<^verbatim>\<open>order_id\<close>, in memory and
  on disk, though the fetch brought nothing.
\<close>

theorem fetch_no_data_counterexample:
  "update_cache \<lparr>startup_mode = False, max_sync_orders = None, image_cached = (\<lambda>_. None),
       images_downloaded = False\<rparr> True (Some [])
     \<lparr>orders_cache = [[(''order_id'', VStr ''7''), (''Name'', VStr ''Ada'')]],
      cache_file = Some [[(''order_id'', VStr ''7''), (''Name'', VStr ''Ada'')]]\<rparr> =
   (Returned VNone, \<lparr>orders_cache = [], cache_file = Some []\<rparr>) \<and>
   get_order_identifier [(''order_id'', VStr ''7''), (''Name'', VStr ''Ada'')] VNone = Some ''7''"
  by (simp add: update_cache_def limit_orders_def full_replace_def cached_id_def dget_def
      py_or_def download_order_images_def save_cache_def get_order_identifier_def)

section \<open>Rows without identifier\<close>

lemma map_of_dset: "map_of (dset d k v) k' = (if k' = k then Some v else map_of d k')"
  by (induction d) auto

lemma dget_dset: "dget (dset d k v) k' = (if k' = k then v else dget d k')"
  by (simp add: dget_def map_of_dset)

lemma has_key_map_of: "has_key d k = (map_of d k \<noteq> None)"
  by (simp add: has_key_def map_of_eq_None_iff)

lemma has_key_dset: "has_key (dset d k v) k' = (k' = k \<or> has_key d k')"
  by (simp add: has_key_map_of map_of_dset)

lemma dset_not_Nil: "dset d k v \<noteq> []"
  by (cases d) (auto split: if_splits)

lemma dget_preserve_group:
  "k \<noteq> fst g \<Longrightarrow> k \<noteq> snd g \<Longrightarrow> dget (preserve_group s g t) k = dget t k"
  by (simp add: preserve_group_def dget_dset)

lemma dget_fold_preserve_group:
  "\<forall>g \<in> set gs. k \<noteq> fst g \<and> k \<noteq> snd g \<Longrightarrow>
   dget (fold (preserve_group s) gs t) k = dget t k"
  by (induction gs arbitrary: t) (simp_all add: dget_preserve_group)

lemma identifier_keys_not_editable:
  "\<forall>g \<in> set editable_field_groups. ''transaction'' \<noteq> fst g \<and> ''transaction'' \<noteq> snd g"
  "\<forall>g \<in> set editable_field_groups. ''Transaction ID'' \<noteq> fst g \<and> ''Transaction ID'' \<noteq> snd g"
  by (simp_all add: editable_field_groups_def k_Hazir_def k_Gonderildi_def)

lemma preserve_keeps_identifier:
  "cached_id (preserve_editable_fields t s) = cached_id t"
  "fetched_id (preserve_editable_fields t s) = fetched_id t"
  by (simp_all add: cached_id_def fetched_id_def preserve_editable_fields_def
      dget_fold_preserve_group identifier_keys_not_editable)

lemma truthy_ids: "truthy (fetched_id order) = truthy (cached_id order)"
  by (auto simp: fetched_id_def cached_id_def py_or_def)










section \<open>The quick sync\<close>

lemma order_dates_example:
  "get_order_date (2026, 11, 3, 12, 0, 0, 0)
     [(''Transaction ID'', VStr ''A''), (''Data'', VStr ''01/02/2025'')] = (2025, 1, 2, 0, 0, 0, 0)"
  "get_order_date (2026, 11, 3, 12, 0, 0, 0)
     [(''Transaction ID'', VStr ''B''), (''Data'', VStr ''next week'')] = (2026, 11, 3, 12, 0, 0, 0)"
  "get_order_date (2026, 11, 3, 12, 0, 0, 0)
     [(''Transaction ID'', VStr ''C''), (''Data'', VStr ''31.02.2025'')] = datetime_min"
  "get_order_date (2026, 11, 3, 12, 0, 0, 0)
     [(''Transaction ID'', VStr ''D''), (''Data'', VStr ''15.03.2024'')] = (2024, 3, 15, 0, 0, 0, 0)"
  by code_simp+

text \<open>
  C9 as the specification states it fails: at the clock reading 2026-11-03 12:00, the row
  B, whose date "next week" has no known format, is sorted before the row A of
  2025-01-02, as the newest row and not as the oldest.
\<close>

theorem unparsable_date_counterexample:
  "get_order_date (2026, 11, 3, 12, 0, 0, 0)
     [(''Transaction ID'', VStr ''B''), (''Data'', VStr ''next week'')] = (2026, 11, 3, 12, 0, 0, 0) \<and>
   latest_20 (\<lambda>_. (2026, 11, 3, 12, 0, 0, 0))
     [[(''Transaction ID'', VStr ''A''), (''Data'', VStr ''01/02/2025'')],
      [(''Transaction ID'', VStr ''B''), (''Data'', VStr ''next week'')]] =
     [[(''Transaction ID'', VStr ''B''), (''Data'', VStr ''next week'')],
      [(''Transaction ID'', VStr ''A''), (''Data'', VStr ''01/02/2025'')]]"
  by code_simp

lemma digit_value_pos: "is_digit c \<Longrightarrow> c \<noteq> CHR ''0'' \<Longrightarrow> 1 \<le> digit_value c"
proof -
  assume d: "is_digit c" and n: "c \<noteq> CHR ''0''"
  have "of_char c \<noteq> (48 :: nat)"
  proof
    assume "of_char c = (48 :: nat)"
    then have "of_char c = (of_char CHR ''0'' :: nat)" by simp
    then have "c = CHR ''0''" by (simp only: of_char_eq_iff)
    with n show False by simp
  qed
  with d show ?thesis unfolding is_digit_def digit_value_def by arith
qed

lemma parse_month_pos: "parse_month s = Some m \<Longrightarrow> 1 \<le> m"
  by (auto simp: parse_month_def digit_value_def dest: digit_value_pos split: list.splits if_splits)

lemma parse_day_pos: "parse_day s = Some d \<Longrightarrow> 1 \<le> d"
  by (auto simp: parse_day_def digit_value_def dest: digit_value_pos split: list.splits if_splits)

lemma make_date_ge_min:
  assumes "make_date y (parse_month a) (parse_day b) = Some t"
  shows "datetime_min \<le> t"
proof -
  from assms obtain y' m' d' where p: "y = Some y'" "parse_month a = Some m'" "parse_day b = Some d'"
    by (auto simp: make_date_def split: option.splits)
  from p(2) have m: "1 \<le> m'" by (rule parse_month_pos)
  from p(3) have d: "1 \<le> d'" by (rule parse_day_pos)
  from assms p have "t = (y', m', d', 0, 0, 0, 0)" and "1 \<le> y'"
    by (auto simp: make_date_def split: if_splits)
  with m d show ?thesis
    by (auto simp: datetime_min_def less_eq_prod_def)
qed

lemma strptime_ge_min:
  "strptime_mdY s = Some t \<Longrightarrow> datetime_min \<le> t"
  "strptime_dmY s = Some t \<Longrightarrow> datetime_min \<le> t"
  by (auto simp: strptime_mdY_def strptime_dmY_def intro: make_date_ge_min split: list.splits)

lemma get_order_date_ge_min: "datetime_min \<le> now \<Longrightarrow> datetime_min \<le> get_order_date now order"
  by (auto simp: get_order_date_def Let_def strptime_ge_min split: option.splits)

lemma download_image_photo:
  "download_image e order = Inr order' \<Longrightarrow>
   order' = order \<or> (\<exists>u. order' = dset order ''photo'' (VStr u))"
  by (auto simp: download_image_def Let_def split: pyval.splits if_splits option.splits)

lemma download_loop_photo:
  "(\<And>a b. f a = Inr b \<Longrightarrow> b = a \<or> (\<exists>u. b = dset a ''photo'' (VStr u))) \<Longrightarrow>
   download_loop f xs = (x, ys) \<Longrightarrow>
   list_all2 (\<lambda>a b. b = a \<or> (\<exists>u. b = dset a ''photo'' (VStr u))) xs ys"
proof (induction xs arbitrary: x ys)
  case Nil
  then show ?case by simp
next
  case (Cons a xs)
  show ?case
  proof (cases "f a")
    case (Inl err)
    with Cons.prems(2) have "ys = a # xs" by simp
    then show ?thesis by (simp add: list_all2_refl)
  next
    case (Inr b)
    obtain x' ys' where rec: "download_loop f xs = (x', ys')"
      by (cases "download_loop f xs")
    with Inr Cons.prems(2) have ys: "ys = b # ys'" by simp
    from Cons.IH[OF Cons.prems(1) rec] Cons.prems(1)[OF Inr] show ?thesis
      by (simp add: ys)
  qed
qed

lemma download_order_images_photo:
  "download_order_images e st = (x, st') \<Longrightarrow>
   list_all2 (\<lambda>a b. b = a \<or> (\<exists>u. b = dset a ''photo'' (VStr u)))
     (orders_cache st) (orders_cache st')"
proof -
  assume d: "download_order_images e st = (x, st')"
  show ?thesis
  proof (cases "startup_mode e")
    case True
    with d show ?thesis by (simp add: download_order_images_def list_all2_refl)
  next
    case False
    obtain y ys where l: "download_loop (download_image e) (orders_cache st) = (y, ys)"
      by (cases "download_loop (download_image e) (orders_cache st)")
    from download_loop_photo[OF download_image_photo l]
    have "list_all2 (\<lambda>a b. b = a \<or> (\<exists>u. b = dset a ''photo'' (VStr u))) (orders_cache st) ys" .
    moreover from d l False have "orders_cache st' = ys"
      by (auto simp: download_order_images_def save_cache_def split: option.splits if_splits)
    ultimately show ?thesis by simp
  qed
qed

lemma sync_latest_cache:
  "list_all2 (\<lambda>a b. b = a \<or> (\<exists>u. b = dset a ''photo'' (VStr u)))
     (quick_sync (orders_cache st) (latest_20 clock (limit_orders e rows)))
     (orders_cache (snd (sync_latest_orders e clock (Some rows) st)))"
proof -
  let ?st1 = "st\<lparr>orders_cache := quick_sync (orders_cache st) (latest_20 clock (limit_orders e rows))\<rparr>"
  obtain x st2 where d: "download_order_images e ?st1 = (x, st2)"
    by (cases "download_order_images e ?st1")
  from download_order_images_photo[OF d]
  have "list_all2 (\<lambda>a b. b = a \<or> (\<exists>u. b = dset a ''photo'' (VStr u)))
     (quick_sync (orders_cache st) (latest_20 clock (limit_orders e rows))) (orders_cache st2)"
    by simp
  moreover have "orders_cache (snd (sync_latest_orders e clock (Some rows) st)) = orders_cache st2"
    using d by (simp add: sync_latest_orders_def Let_def save_cache_def split: option.splits)
  ultimately show ?thesis by simp
qed

lemma quick_sync_keeps:
  "c \<in> set cache \<Longrightarrow> truthy (cached_id c) \<Longrightarrow>
   hash_key (cached_id c) \<notin> set (map hash_key (filter truthy (map cached_id latest))) \<Longrightarrow>
   c \<in> set (quick_sync cache latest)"
  by (simp add: quick_sync_def)

lemma quick_sync_example:
  "hash_key (cached_id (staged_order ''T1'' ''TRUE'' ''FALSE'' ''FALSE'')) \<notin>
     set (map hash_key (filter truthy (map cached_id
       (latest_20 (\<lambda>_. (2026, 11, 3, 12, 0, 0, 0))
         (limit_orders \<lparr>startup_mode = False, max_sync_orders = None,
            image_cached = (\<lambda>_. None), images_downloaded = False\<rparr>
           [[(''Transaction ID'', VStr ''C''), (''Data'', VStr ''31.02.2025'')],
            [(''Transaction ID'', VStr ''A''), (''Data'', VStr ''01/02/2025'')]]))))) \<and>
   truthy (cached_id (staged_order ''T1'' ''TRUE'' ''FALSE'' ''FALSE''))"
  by code_simp

lemma list_all2_member: "list_all2 R xs ys \<Longrightarrow> x \<in> set xs \<Longrightarrow> \<exists>y \<in> set ys. R x y"
  by (induction rule: list_all2_induct) auto

text \<open>
  C9, as the code has it. The quick sync sorts the fetched rows by \<open>get_order_date\<close>,
  latest first and stably, and takes the first 20. The date of a row is
  \<^verbatim>\<open>datetime.min\<close>, the oldest of all, when the row has no date or when its date has a
  slash or a dot and fails the format; it is the reading of the clock, hence the newest,
  when the date is not empty and has neither a slash nor a dot. The rows taken that have
  an identifier go through the preserver against the last cached row of that identifier,
  and every cached row whose identifier is not among them is in the merged list, and
  after the image step in the cache, with at most its \<^verbatim>\<open>photo\<close> set.
\<close>

theorem quick_sync_keeps_older_rows:
  "(mset (sort_reverse (\<lambda>(n, order). get_order_date (clock n) order) (enumerate 0 rows)) =
      mset (enumerate 0 rows) \<and>
    sorted (rev (map (\<lambda>(n, order). get_order_date (clock n) order)
      (sort_reverse (\<lambda>(n, order). get_order_date (clock n) order) (enumerate 0 rows)))) \<and>
    (\<forall>k. filter (\<lambda>(n, order). get_order_date (clock n) order = k)
            (sort_reverse (\<lambda>(n, order). get_order_date (clock n) order) (enumerate 0 rows)) =
          filter (\<lambda>(n, order). get_order_date (clock n) order = k) (enumerate 0 rows)) \<and>
    latest_20 clock rows =
      take 20 (map snd (sort_reverse (\<lambda>(n, order). get_order_date (clock n) order)
        (enumerate 0 rows)))) \<and>
   (\<not> (has_key order ''Data'' \<and> truthy (dget order ''Data'')) \<longrightarrow>
      get_order_date now order = datetime_min) \<and>
   (has_key order ''Data'' \<and> truthy (dget order ''Data'') \<and>
    CHR ''/'' \<in> set (py_strip (py_str (dget order ''Data''))) \<and>
    strptime_mdY (py_strip (py_str (dget order ''Data''))) = None \<longrightarrow>
      get_order_date now order = datetime_min) \<and>
   (has_key order ''Data'' \<and> truthy (dget order ''Data'') \<and>
    CHR ''/'' \<notin> set (py_strip (py_str (dget order ''Data''))) \<and>
    CHR ''.'' \<in> set (py_strip (py_str (dget order ''Data''))) \<and>
    strptime_dmY (py_strip (py_str (dget order ''Data''))) = None \<longrightarrow>
      get_order_date now order = datetime_min) \<and>
   (has_key order ''Data'' \<and> truthy (dget order ''Data'') \<and>
    CHR ''/'' \<notin> set (py_strip (py_str (dget order ''Data''))) \<and>
    CHR ''.'' \<notin> set (py_strip (py_str (dget order ''Data''))) \<longrightarrow>
      get_order_date now order = now) \<and>
   (datetime_min \<le> now \<longrightarrow> datetime_min \<le> get_order_date now order) \<and>
   quick_sync cache latest =
     map (\<lambda>order. case last_existing cache (cached_id order) of
                     None \<Rightarrow> order
                   | Some existing_order \<Rightarrow> preserve_editable_fields order existing_order)
       (filter (\<lambda>order. truthy (cached_id order)) latest) @
     filter (\<lambda>c. truthy (cached_id c) \<and>
               hash_key (cached_id c) \<notin> set (map hash_key (filter truthy (map cached_id latest))))
       cache \<and>
   (\<forall>c \<in> set (orders_cache st).
      truthy (cached_id c) \<and>
      hash_key (cached_id c) \<notin> set (map hash_key (filter truthy
        (map cached_id (latest_20 clock (limit_orders e rows))))) \<longrightarrow>
      c \<in> set (quick_sync (orders_cache st) (latest_20 clock (limit_orders e rows))) \<and>
      (\<exists>c' \<in> set (orders_cache (snd (sync_latest_orders e clock (Some rows) st))).
         c' = c \<or> (\<exists>u. c' = dset c ''photo'' (VStr u))))"
proof -
  have keep: "c \<in> set (quick_sync (orders_cache st) (latest_20 clock (limit_orders e rows))) \<and>
      (\<exists>c' \<in> set (orders_cache (snd (sync_latest_orders e clock (Some rows) st))).
         c' = c \<or> (\<exists>u. c' = dset c ''photo'' (VStr u)))"
    if c: "c \<in> set (orders_cache st)" and t: "truthy (cached_id c)"
      and n: "hash_key (cached_id c) \<notin> set (map hash_key (filter truthy
        (map cached_id (latest_20 clock (limit_orders e rows)))))" for c
  proof
    show m: "c \<in> set (quick_sync (orders_cache st) (latest_20 clock (limit_orders e rows)))"
      using c t n by (rule quick_sync_keeps)
    have "list_all2 (\<lambda>a b. b = a \<or> (\<exists>u. b = dset a ''photo'' (VStr u)))
       (quick_sync (orders_cache st) (latest_20 clock (limit_orders e rows)))
       (orders_cache (snd (sync_latest_orders e clock (Some rows) st)))"
      by (rule sync_latest_cache)
    from list_all2_member[OF this m]
    show "\<exists>c' \<in> set (orders_cache (snd (sync_latest_orders e clock (Some rows) st))).
         c' = c \<or> (\<exists>u. c' = dset c ''photo'' (VStr u))" .
  qed
  have dates: "(\<not> (has_key order ''Data'' \<and> truthy (dget order ''Data'')) \<longrightarrow>
      get_order_date now order = datetime_min) \<and>
   (has_key order ''Data'' \<and> truthy (dget order ''Data'') \<and>
    CHR ''/'' \<in> set (py_strip (py_str (dget order ''Data''))) \<and>
    strptime_mdY (py_strip (py_str (dget order ''Data''))) = None \<longrightarrow>
      get_order_date now order = datetime_min) \<and>
   (has_key order ''Data'' \<and> truthy (dget order ''Data'') \<and>
    CHR ''/'' \<notin> set (py_strip (py_str (dget order ''Data''))) \<and>
    CHR ''.'' \<in> set (py_strip (py_str (dget order ''Data''))) \<and>
    strptime_dmY (py_strip (py_str (dget order ''Data''))) = None \<longrightarrow>
      get_order_date now order = datetime_min) \<and>
   (has_key order ''Data'' \<and> truthy (dget order ''Data'') \<and>
    CHR ''/'' \<notin> set (py_strip (py_str (dget order ''Data''))) \<and>
    CHR ''.'' \<notin> set (py_strip (py_str (dget order ''Data''))) \<longrightarrow>
      get_order_date now order = now)"
    by (simp add: get_order_date_def Let_def)
  have stable: "\<forall>k. filter (\<lambda>(n, order). get_order_date (clock n) order = k)
            (sort_reverse (\<lambda>(n, order). get_order_date (clock n) order) (enumerate 0 rows)) =
          filter (\<lambda>(n, order). get_order_date (clock n) order = k) (enumerate 0 rows)"
  proof
    fix k
    have eq: "(\<lambda>(n, order). get_order_date (clock n) order = k) =
        (\<lambda>x. (case x of (n, order) \<Rightarrow> get_order_date (clock n) order) = k)"
      by (auto simp: fun_eq_iff)
    show "filter (\<lambda>(n, order). get_order_date (clock n) order = k)
            (sort_reverse (\<lambda>(n, order). get_order_date (clock n) order) (enumerate 0 rows)) =
          filter (\<lambda>(n, order). get_order_date (clock n) order = k) (enumerate 0 rows)"
      unfolding eq by (rule sort_reverse_stable)
  qed
  have sorting: "mset (sort_reverse (\<lambda>(n, order). get_order_date (clock n) order) (enumerate 0 rows)) =
      mset (enumerate 0 rows) \<and>
    sorted (rev (map (\<lambda>(n, order). get_order_date (clock n) order)
      (sort_reverse (\<lambda>(n, order). get_order_date (clock n) order) (enumerate 0 rows)))) \<and>
    latest_20 clock rows =
      take 20 (map snd (sort_reverse (\<lambda>(n, order). get_order_date (clock n) order)
        (enumerate 0 rows)))"
    by (simp add: sort_reverse_mset sort_reverse_sorted latest_20_def)
  have merged: "quick_sync cache latest =
     map (\<lambda>order. case last_existing cache (cached_id order) of
                     None \<Rightarrow> order
                   | Some existing_order \<Rightarrow> preserve_editable_fields order existing_order)
       (filter (\<lambda>order. truthy (cached_id order)) latest) @
     filter (\<lambda>c. truthy (cached_id c) \<and>
               hash_key (cached_id c) \<notin> set (map hash_key (filter truthy (map cached_id latest))))
       cache"
    by (simp add: quick_sync_def update_latest_def)
  have ge: "datetime_min \<le> now \<longrightarrow> datetime_min \<le> get_order_date now order"
    by (simp add: get_order_date_ge_min)
  from sorting stable dates ge merged keep show ?thesis
    by blast
qed

text \<open>
  A quick sync of the rows A, of 2025-01-02, and C, whose date 31.02.2025 fails its
  format, into a cache that holds the older order T1 with Produce set.
\<close>

theorem quick_sync_keeps_older_rows_witness:
  "staged_order ''T1'' ''TRUE'' ''FALSE'' ''FALSE'' \<in>
     set (quick_sync [staged_order ''T1'' ''TRUE'' ''FALSE'' ''FALSE'']
       (latest_20 (\<lambda>_. (2026, 11, 3, 12, 0, 0, 0))
         (limit_orders \<lparr>startup_mode = False, max_sync_orders = None,
            image_cached = (\<lambda>_. None), images_downloaded = False\<rparr>
           [[(''Transaction ID'', VStr ''C''), (''Data'', VStr ''31.02.2025'')],
            [(''Transaction ID'', VStr ''A''), (''Data'', VStr ''01/02/2025'')]]))) \<and>
   get_order_date (2026, 11, 3, 12, 0, 0, 0)
     [(''Transaction ID'', VStr ''C''), (''Data'', VStr ''31.02.2025'')] = datetime_min \<and>
   datetime_min \<le> get_order_date (2026, 11, 3, 12, 0, 0, 0)
     [(''Transaction ID'', VStr ''C''), (''Data'', VStr ''31.02.2025'')]"
  using quick_sync_keeps_older_rows [where clock = "\<lambda>_. (2026, 11, 3, 12, 0, 0, 0)"
      and now = "(2026, 11, 3, 12, 0, 0, 0)"
      and order = "[(''Transaction ID'', VStr ''C''), (''Data'', VStr ''31.02.2025'')]"
      and rows = "[[(''Transaction ID'', VStr ''C''), (''Data'', VStr ''31.02.2025'')],
            [(''Transaction ID'', VStr ''A''), (''Data'', VStr ''01/02/2025'')]]"
      and e = "\<lparr>startup_mode = False, max_sync_orders = None,
            image_cached = (\<lambda>_. None), images_downloaded = False\<rparr>"
      and st = "\<lparr>orders_cache = [staged_order ''T1'' ''TRUE'' ''FALSE'' ''FALSE''],
            cache_file = None\<rparr>"
      and cache = "[]" and latest = "[]"]
    quick_sync_example order_dates_example(3)
  by (simp add: datetime_min_def less_eq_prod_def)

section \<open>Edits survive the merges\<close>

lemma preserved_value_map_of:
  "preserved_value s (f, k) =
     (case map_of s k of Some v \<Rightarrow> v
      | None \<Rightarrow> (case map_of s f of Some v \<Rightarrow> v | None \<Rightarrow> VNone))"
  by (auto simp: preserved_value_def has_key_map_of dget_def split: option.splits)

lemma map_of_preserve_group:
  "map_of (preserve_group s g t) k =
     (if preserved_value s g \<noteq> VNone \<and> (k = fst g \<or> k = snd g)
      then Some (preserved_value s g) else map_of t k)"
  by (auto simp: preserve_group_def map_of_dset)

lemma editable_keys_distinct:
  "distinct (map fst editable_field_groups @ map snd editable_field_groups)"
  by (simp add: editable_field_groups_def k_Hazir_def k_Gonderildi_def)

lemma keys_distinct_generic:
  assumes d: "distinct (map fst gs @ map snd gs)"
    and g: "g \<in> set gs" and g': "g' \<in> set gs" and ne: "g \<noteq> g'"
  shows "fst g \<noteq> fst g' \<and> fst g \<noteq> snd g' \<and> snd g \<noteq> fst g' \<and> snd g \<noteq> snd g'"
proof -
  from d have i1: "inj_on fst (set gs)" and i2: "inj_on snd (set gs)"
    and dj: "fst ` set gs \<inter> snd ` set gs = {}"
    by (simp_all add: distinct_map)
  from i1 g g' ne have 1: "fst g \<noteq> fst g'" by (meson inj_onD)
  from i2 g g' ne have 2: "snd g \<noteq> snd g'" by (meson inj_onD)
  from dj g g' have 3: "fst g \<noteq> snd g'" by blast
  from dj g g' have 4: "snd g \<noteq> fst g'" by (metis disjoint_iff imageI)
  from 1 2 3 4 show ?thesis by simp
qed

lemma group_keys_distinct:
  "g \<in> set editable_field_groups \<Longrightarrow> g' \<in> set editable_field_groups \<Longrightarrow> g \<noteq> g' \<Longrightarrow>
   fst g \<noteq> fst g' \<and> fst g \<noteq> snd g' \<and> snd g \<noteq> fst g' \<and> snd g \<noteq> snd g'"
  using editable_keys_distinct by (rule keys_distinct_generic)

lemma map_of_fold_preserve_group:
  "distinct gs \<Longrightarrow> set gs \<subseteq> set editable_field_groups \<Longrightarrow> g \<in> set editable_field_groups \<Longrightarrow>
   k = fst g \<or> k = snd g \<Longrightarrow>
   map_of (fold (preserve_group s) gs t) k =
     (if g \<in> set gs \<and> preserved_value s g \<noteq> VNone then Some (preserved_value s g)
      else map_of t k)"
proof (induction gs arbitrary: t)
  case Nil
  then show ?case by simp
next
  case (Cons a gs)
  have rest: "map_of (fold (preserve_group s) gs (preserve_group s a t)) k =
     (if g \<in> set gs \<and> preserved_value s g \<noteq> VNone then Some (preserved_value s g)
      else map_of (preserve_group s a t) k)"
    using Cons.prems by (intro Cons.IH) auto
  show ?case
  proof (cases "a = g")
    case True
    with Cons.prems rest show ?thesis
      by (auto simp: map_of_preserve_group)
  next
    case False
    from Cons.prems have "a \<in> set editable_field_groups" by auto
    from group_keys_distinct[OF this Cons.prems(3) False] Cons.prems(4)
    have "k \<noteq> fst a \<and> k \<noteq> snd a" by auto
    with rest False show ?thesis
      by (auto simp: map_of_preserve_group)
  qed
qed

lemma editable_field_groups_distinct: "distinct editable_field_groups"
  using editable_keys_distinct by (simp add: distinct_map)

lemma preserve_as_fold:
  "t \<noteq> [] \<Longrightarrow> preserve_editable_fields t s = fold (preserve_group s) editable_field_groups t"
proof (cases "s = []")
  case True
  have "fold (preserve_group []) gs t = t" for gs
    by (induction gs) (simp_all add: preserve_group_def preserved_value_def has_key_def split: prod.splits)
  with True show ?thesis by (simp add: preserve_editable_fields_def)
next
  case False
  assume "t \<noteq> []"
  with False show ?thesis by (simp add: preserve_editable_fields_def)
qed

lemma map_of_preserve:
  "t \<noteq> [] \<Longrightarrow> g \<in> set editable_field_groups \<Longrightarrow> k = fst g \<or> k = snd g \<Longrightarrow>
   map_of (preserve_editable_fields t s) k =
     (if preserved_value s g \<noteq> VNone then Some (preserved_value s g) else map_of t k)"
  using map_of_fold_preserve_group[OF editable_field_groups_distinct subset_refl, of g k s t]
  by (simp add: preserve_as_fold)

lemma preserved_value_preserve:
  assumes "t \<noteq> []" and "g \<in> set editable_field_groups"
  shows "preserved_value (preserve_editable_fields t s) g =
     (if preserved_value s g \<noteq> VNone then preserved_value s g else preserved_value t g)"
proof -
  obtain f k where g: "g = (f, k)" by (cases g)
  have f: "map_of (preserve_editable_fields t s) f =
     (if preserved_value s g \<noteq> VNone then Some (preserved_value s g) else map_of t f)"
    using assms by (intro map_of_preserve) (simp_all add: g)
  have k: "map_of (preserve_editable_fields t s) k =
     (if preserved_value s g \<noteq> VNone then Some (preserved_value s g) else map_of t k)"
    using assms by (intro map_of_preserve) (simp_all add: g)
  show ?thesis
    unfolding g preserved_value_map_of f[unfolded g] k[unfolded g]
    by (simp add: preserved_value_map_of)
qed

lemma preserve_not_Nil: "t \<noteq> [] \<Longrightarrow> preserve_editable_fields t s \<noteq> []"
proof -
  have "t \<noteq> [] \<Longrightarrow> fold (preserve_group s) gs t \<noteq> []" for gs
    by (induction gs arbitrary: t) (simp_all add: preserve_group_def dset_not_Nil)
  then show "t \<noteq> [] \<Longrightarrow> preserve_editable_fields t s \<noteq> []"
    by (simp add: preserve_editable_fields_def)
qed

lemma carries_edits_refl: "carries_edits c c"
  by (simp add: carries_edits_def)

lemma carries_edits_preserve:
  "carries_edits c r \<Longrightarrow> b \<noteq> [] \<Longrightarrow> carries_edits c (preserve_editable_fields b r)"
  by (auto simp: carries_edits_def preserved_value_preserve)

lemma photo_not_editable:
  "g \<in> set editable_field_groups \<Longrightarrow> fst g \<noteq> ''photo'' \<and> snd g \<noteq> ''photo''"
  by (auto simp: editable_field_groups_def k_Hazir_def k_Gonderildi_def)

lemma preserved_value_photo:
  assumes "g \<in> set editable_field_groups"
  shows "preserved_value (dset r ''photo'' u) g = preserved_value r g"
proof -
  obtain f k where g: "g = (f, k)" by (cases g)
  from photo_not_editable[OF assms] have n: "f \<noteq> ''photo''" "k \<noteq> ''photo''"
    by (simp_all add: g)
  have "map_of (dset r ''photo'' u) f = map_of r f" "map_of (dset r ''photo'' u) k = map_of r k"
    using n by (simp_all add: map_of_dset)
  then show ?thesis
    unfolding g preserved_value_map_of by (simp only:)
qed

lemma carries_edits_photo:
  "carries_edits c r \<Longrightarrow> r' = r \<or> (\<exists>u. r' = dset r ''photo'' (VStr u)) \<Longrightarrow> carries_edits c r'"
  by (auto simp: carries_edits_def preserved_value_photo)

lemma truthy_id_not_Nil: "truthy (cached_id order) \<Longrightarrow> order \<noteq> []"
  by (auto simp: cached_id_def dget_def py_or_def)
lemma first_existing_hash:
  "hash_key t = hash_key t' \<Longrightarrow> first_existing cache t = first_existing cache t'"
  by (simp add: first_existing_def py_eq_def)

lemma last_existing_hash:
  "hash_key t = hash_key t' \<Longrightarrow> last_existing cache t = last_existing cache t'"
  by (simp add: last_existing_def py_eq_def)

lemma add_new_orders_seen:
  "add_new_orders cache seen new_orders = (added, seen') \<Longrightarrow> k \<in> set seen' \<Longrightarrow> k \<notin> set seen \<Longrightarrow>
   \<exists>b \<in> set new_orders. truthy (fetched_id b) \<and> hash_key (fetched_id b) = k \<and>
     (case first_existing cache (fetched_id b) of
        None \<Rightarrow> b | Some ex \<Rightarrow> preserve_editable_fields b ex) \<in> set added"
proof (induction new_orders arbitrary: seen added seen')
  case Nil
  then show ?case by simp
next
  case (Cons order rest)
  show ?case
  proof (cases "truthy (fetched_id order) \<and> hash_key (fetched_id order) \<notin> set seen")
    case True
    obtain added1 seen1 where rec:
      "add_new_orders cache (hash_key (fetched_id order) # seen) rest = (added1, seen1)"
      by (cases "add_new_orders cache (hash_key (fetched_id order) # seen) rest")
    with Cons.prems(1) True have a: "added =
        (case first_existing cache (fetched_id order) of
           None \<Rightarrow> order | Some ex \<Rightarrow> preserve_editable_fields order ex) # added1"
      and s: "seen' = seen1"
      by (simp_all add: Let_def)
    show ?thesis
    proof (cases "k = hash_key (fetched_id order)")
      case True
      with \<open>truthy (fetched_id order) \<and> hash_key (fetched_id order) \<notin> set seen\<close> a
      show ?thesis by auto
    next
      case False
      with Cons.prems(2,3) s have "k \<in> set seen1" "k \<notin> set (hash_key (fetched_id order) # seen)"
        by auto
      from Cons.IH[OF rec this] a show ?thesis by auto
    qed
  next
    case False
    with Cons.prems(1) have "add_new_orders cache seen rest = (added, seen')"
      by (auto simp: Let_def)
    from Cons.IH[OF this Cons.prems(2,3)] show ?thesis by auto
  qed
qed

lemma find_SomeD: "find P xs = Some x \<Longrightarrow> P x \<and> x \<in> set xs"
  by (induction xs) (auto split: if_splits)

lemma first_existing_Some:
  "first_existing cache t = Some c \<Longrightarrow>
   c \<in> set cache \<and> truthy (cached_id c) \<and> hash_key (cached_id c) = hash_key t"
  by (auto simp: first_existing_def py_eq_def dest: find_SomeD)

lemma last_existing_Some:
  "last_existing cache t = Some c \<Longrightarrow>
   c \<in> set cache \<and> truthy (cached_id c) \<and> hash_key (cached_id c) = hash_key t"
  by (auto simp: last_existing_def py_eq_def dest: find_SomeD)

lemma full_replace_carries:
  assumes "first_existing cache (cached_id c) = Some c"
  shows "\<exists>r \<in> set (full_replace cache new_orders). carries_edits c r \<and>
     (r = c \<or> (\<exists>b \<in> set new_orders. hash_key (fetched_id b) = hash_key (cached_id c) \<and>
        r = preserve_editable_fields b c))"
proof -
  from first_existing_Some[OF assms] have c: "c \<in> set cache" and t: "truthy (cached_id c)"
    by simp_all
  obtain added seen where a: "add_new_orders cache [] new_orders = (added, seen)"
    by (cases "add_new_orders cache [] new_orders")
  show ?thesis
  proof (cases "hash_key (cached_id c) \<in> set seen")
    case True
    from add_new_orders_seen[OF a True] obtain b where b: "b \<in> set new_orders"
      "truthy (fetched_id b)" "hash_key (fetched_id b) = hash_key (cached_id c)"
      "(case first_existing cache (fetched_id b) of
        None \<Rightarrow> b | Some ex \<Rightarrow> preserve_editable_fields b ex) \<in> set added"
      by auto
    from first_existing_hash[OF b(3), of cache] assms
    have "first_existing cache (fetched_id b) = Some c" by simp
    with b(4) have m: "preserve_editable_fields b c \<in> set added" by simp
    from b(2) have "b \<noteq> []" by (auto simp: truthy_ids dest: truthy_id_not_Nil)
    with carries_edits_refl have "carries_edits c (preserve_editable_fields b c)"
      by (rule carries_edits_preserve)
    with m b(1,3) a show ?thesis
      by (auto simp: full_replace_def)
  next
    case False
    with c t a have "c \<in> set (full_replace cache new_orders)"
      by (simp add: full_replace_def)
    with carries_edits_refl show ?thesis by blast
  qed
qed

lemma quick_sync_carries:
  assumes "last_existing cache (cached_id c) = Some c"
  shows "\<exists>r \<in> set (quick_sync cache latest). carries_edits c r \<and>
     (r = c \<or> (\<exists>b \<in> set latest. hash_key (cached_id b) = hash_key (cached_id c) \<and>
        r = preserve_editable_fields b c))"
proof -
  from last_existing_Some[OF assms] have c: "c \<in> set cache" and t: "truthy (cached_id c)"
    by simp_all
  show ?thesis
  proof (cases "hash_key (cached_id c) \<in> set (map hash_key (filter truthy (map cached_id latest)))")
    case True
    then obtain b where b: "b \<in> set latest" "truthy (cached_id b)"
      "hash_key (cached_id b) = hash_key (cached_id c)"
      by auto
    from last_existing_hash[OF b(3), of cache] assms
    have "last_existing cache (cached_id b) = Some c" by simp
    with b(1,2) have m: "preserve_editable_fields b c \<in> set (update_latest cache latest)"
      by (force simp: update_latest_def)
    from b(2) have "b \<noteq> []" by (rule truthy_id_not_Nil)
    with carries_edits_refl have "carries_edits c (preserve_editable_fields b c)"
      by (rule carries_edits_preserve)
    with m b(1,3) show ?thesis
      by (auto simp: quick_sync_def)
  next
    case False
    with c t have "c \<in> set (quick_sync cache latest)"
      by (simp add: quick_sync_def)
    with carries_edits_refl show ?thesis by blast
  qed
qed

lemma carries_edits_member:
  "list_all2 (\<lambda>a b. b = a \<or> (\<exists>u. b = dset a ''photo'' (VStr u))) xs ys \<Longrightarrow>
   r \<in> set xs \<Longrightarrow> carries_edits c r \<Longrightarrow> \<exists>r' \<in> set ys. carries_edits c r'"
  using list_all2_member[of "\<lambda>a b. b = a \<or> (\<exists>u. b = dset a ''photo'' (VStr u))" xs ys r]
    carries_edits_photo[of c r]
  by blast

lemma update_cache_cache:
  "orders_cache (snd (update_cache e download_images fetched st)) = orders_cache st \<or>
   (\<exists>rows. fetched = Some rows \<and>
      list_all2 (\<lambda>a b. b = a \<or> (\<exists>u. b = dset a ''photo'' (VStr u)))
        (full_replace (orders_cache st) (limit_orders e rows))
        (orders_cache (snd (update_cache e download_images fetched st))))"
proof (cases "startup_mode e \<or> fetched = None")
  case True
  then show ?thesis by (auto simp: update_cache_def)
next
  case False
  then obtain rows where f: "fetched = Some rows" and ns: "\<not> startup_mode e" by auto
  let ?st1 = "st\<lparr>orders_cache := full_replace (orders_cache st) (limit_orders e rows)\<rparr>"
  show ?thesis
  proof (cases download_images)
    case False
    with f ns have "orders_cache (snd (update_cache e download_images fetched st)) =
        full_replace (orders_cache st) (limit_orders e rows)"
      by (simp add: update_cache_def Let_def save_cache_def)
    with f show ?thesis by (simp add: list_all2_refl)
  next
    case True
    obtain x st2 where d: "download_order_images e ?st1 = (x, st2)"
      by (cases "download_order_images e ?st1")
    from download_order_images_photo[OF d]
    have "list_all2 (\<lambda>a b. b = a \<or> (\<exists>u. b = dset a ''photo'' (VStr u)))
        (full_replace (orders_cache st) (limit_orders e rows)) (orders_cache st2)"
      by simp
    moreover have "orders_cache (snd (update_cache e download_images fetched st)) = orders_cache st2"
      using d f ns True by (simp add: update_cache_def Let_def save_cache_def split: option.splits)
    ultimately show ?thesis using f by simp
  qed
qed

lemma update_cache_carries:
  assumes "first_existing (orders_cache st) (cached_id c) = Some c"
  shows "\<exists>r \<in> set (orders_cache (snd (update_cache e download_images fetched st))). carries_edits c r"
proof -
  from update_cache_cache[of e download_images fetched st]
  show ?thesis
  proof
    assume "orders_cache (snd (update_cache e download_images fetched st)) = orders_cache st"
    with first_existing_Some[OF assms] carries_edits_refl show ?thesis by auto
  next
    assume "\<exists>rows. fetched = Some rows \<and>
      list_all2 (\<lambda>a b. b = a \<or> (\<exists>u. b = dset a ''photo'' (VStr u)))
        (full_replace (orders_cache st) (limit_orders e rows))
        (orders_cache (snd (update_cache e download_images fetched st)))"
    then obtain rows where l: "list_all2 (\<lambda>a b. b = a \<or> (\<exists>u. b = dset a ''photo'' (VStr u)))
        (full_replace (orders_cache st) (limit_orders e rows))
        (orders_cache (snd (update_cache e download_images fetched st)))"
      by auto
    from full_replace_carries[OF assms, of "limit_orders e rows"] obtain r where
      "r \<in> set (full_replace (orders_cache st) (limit_orders e rows))" "carries_edits c r"
      by auto
    with l show ?thesis by (rule carries_edits_member)
  qed
qed

lemma sync_latest_carries:
  assumes "last_existing (orders_cache st) (cached_id c) = Some c"
  shows "\<exists>r \<in> set (orders_cache (snd (sync_latest_orders e clock fetched st))). carries_edits c r"
proof (cases fetched)
  case None
  with last_existing_Some[OF assms] carries_edits_refl show ?thesis
    by (auto simp: sync_latest_orders_def)
next
  case (Some rows)
  from quick_sync_carries[OF assms, of "latest_20 clock (limit_orders e rows)"] obtain r where
    "r \<in> set (quick_sync (orders_cache st) (latest_20 clock (limit_orders e rows)))"
    "carries_edits c r"
    by auto
  with sync_latest_cache[of st clock e rows] show ?thesis
    unfolding Some by (rule carries_edits_member)
qed
lemma update_first_rel:
  "update_first P f xs = (ys, b) \<Longrightarrow> list_all2 (\<lambda>x y. y = x \<or> f x = Some y) xs ys"
proof (induction xs arbitrary: ys b)
  case Nil
  then show ?case by simp
next
  case (Cons x xs)
  show ?case
  proof (cases "P x")
    case True
    with Cons.prems show ?thesis
      by (auto simp: list_all2_refl split: option.splits)
  next
    case False
    obtain ys' b' where rec: "update_first P f xs = (ys', b')"
      by (cases "update_first P f xs")
    with Cons.prems False have "ys = x # ys'" by simp
    with Cons.IH[OF rec] show ?thesis by simp
  qed
qed

lemma new_orders_map_Some: "new_orders_map new_orders k = Some n \<Longrightarrow> n \<noteq> []"
  by (auto simp: new_orders_map_def truthy_ids dest!: find_SomeD truthy_id_not_Nil)

lemma check_updated_rel:
  assumes "check_updated new_orders k (cache, upd) = (cache', upd')"
  shows "list_all2 (\<lambda>x y. y = x \<or> (\<exists>n. n \<noteq> [] \<and> y = preserve_editable_fields n x)) cache cache'"
proof (cases "new_orders_map new_orders k")
  case None
  with assms show ?thesis by (simp add: check_updated_def list_all2_refl)
next
  case (Some n)
  let ?f = "\<lambda>existing_order.
     if existing_order \<noteq> [] \<and> order_changed existing_order n
     then Some (preserve_editable_fields n existing_order) else None"
  obtain ys b where u: "update_first (\<lambda>order. hash_key (cached_id order) = k) ?f cache = (ys, b)"
    by (cases "update_first (\<lambda>order. hash_key (cached_id order) = k) ?f cache")
  with assms Some have c: "cache' = ys" by (simp add: check_updated_def)
  from new_orders_map_Some[OF Some] have n: "n \<noteq> []" .
  from update_first_rel[OF u] have "list_all2 (\<lambda>x y. y = x \<or> ?f x = Some y) cache ys" .
  then have "list_all2 (\<lambda>x y. y = x \<or> (\<exists>n. n \<noteq> [] \<and> y = preserve_editable_fields n x)) cache ys"
    by (rule list_all2_mono) (use n in \<open>auto split: if_splits\<close>)
  with c show ?thesis by simp
qed

lemma carries_edits_step:
  "carries_edits c x \<Longrightarrow> y = x \<or> (\<exists>n. n \<noteq> [] \<and> y = preserve_editable_fields n x) \<Longrightarrow>
   carries_edits c y"
  by (auto intro: carries_edits_preserve)

lemma fold_check_updated_carries:
  "fold (check_updated new_orders) ks (cache, upd) = (cache', upd') \<Longrightarrow>
   list_all2 carries_edits base cache \<Longrightarrow> list_all2 carries_edits base cache'"
proof (induction ks arbitrary: cache upd)
  case Nil
  then show ?case by simp
next
  case (Cons k ks)
  obtain cache1 upd1 where s: "check_updated new_orders k (cache, upd) = (cache1, upd1)"
    by (cases "check_updated new_orders k (cache, upd)")
  have "list_all2 carries_edits base cache1"
  proof (rule list_all2_trans[OF _ Cons.prems(2) check_updated_rel[OF s]])
    fix a b c
    assume "carries_edits a b" "c = b \<or> (\<exists>n. n \<noteq> [] \<and> c = preserve_editable_fields n b)"
    then show "carries_edits a c" by (rule carries_edits_step)
  qed
  moreover from Cons.prems(1) s have "fold (check_updated new_orders) ks (cache1, upd1) = (cache', upd')"
    by simp
  ultimately show ?case by (rule Cons.IH[rotated])
qed

lemma download_specific_photo:
  "download_images_for_specific_orders e ids st = (x, st') \<Longrightarrow>
   list_all2 (\<lambda>a b. b = a \<or> (\<exists>u. b = dset a ''photo'' (VStr u)))
     (orders_cache st) (orders_cache st')"
proof -
  assume d: "download_images_for_specific_orders e ids st = (x, st')"
  let ?f = "\<lambda>order. if hash_key (cached_id order) \<in> set ids
                            then download_image e order else Inr order"
  show ?thesis
  proof (cases "ids = [] \<or> orders_cache st = []")
    case True
    with d show ?thesis by (auto simp: download_images_for_specific_orders_def list_all2_refl)
  next
    case False
    obtain y ys where l: "download_loop ?f (orders_cache st) = (y, ys)"
      by (cases "download_loop ?f (orders_cache st)")
    have "\<And>a b. ?f a = Inr b \<Longrightarrow> b = a \<or> (\<exists>u. b = dset a ''photo'' (VStr u))"
      by (auto dest: download_image_photo split: if_splits)
    from download_loop_photo[of ?f, OF this l]
    have "list_all2 (\<lambda>a b. b = a \<or> (\<exists>u. b = dset a ''photo'' (VStr u))) (orders_cache st) ys" .
    moreover from d l False have "orders_cache st' = ys"
      by (auto simp: download_images_for_specific_orders_def save_cache_def
          split: option.splits if_splits)
    ultimately show ?thesis by simp
  qed
qed

lemma incremental_carries:
  "\<exists>tail. list_all2 carries_edits (orders_cache st @ tail)
     (orders_cache (snd (incremental_update_cache e fetched st)))"
proof (cases fetched)
  case None
  have "list_all2 carries_edits (orders_cache st @ []) (orders_cache st)"
    by (simp add: list_all2_refl carries_edits_refl)
  with None show ?thesis
    by (auto simp: incremental_update_cache_def simp del: append_Nil2)
next
  case (Some rows)
  define new_orders where "new_orders = limit_orders e rows"
  define current_ids where "current_ids = current_transaction_ids (orders_cache st)"
  define new_order_ids where
    "new_order_ids = filter (\<lambda>k. k \<notin> set current_ids) (new_orders_keys new_orders)"
  define tail where "tail = List.map_filter (new_orders_map new_orders) new_order_ids"
  obtain cache2 upd where f:
    "fold (check_updated new_orders) current_ids (orders_cache st @ tail, []) = (cache2, upd)"
    by (cases "fold (check_updated new_orders) current_ids (orders_cache st @ tail, [])")
  have base: "list_all2 carries_edits (orders_cache st @ tail) (orders_cache st @ tail)"
    by (simp add: list_all2_refl carries_edits_refl)
  from fold_check_updated_carries[OF f base]
  have c2: "list_all2 carries_edits (orders_cache st @ tail) cache2" .
  obtain x st2 where d: "download_images_for_specific_orders e (new_order_ids @ upd)
      (st\<lparr>orders_cache := cache2\<rparr>) = (x, st2)"
    by (cases "download_images_for_specific_orders e (new_order_ids @ upd) (st\<lparr>orders_cache := cache2\<rparr>)")
  from download_specific_photo[OF d]
  have p: "list_all2 (\<lambda>a b. b = a \<or> (\<exists>u. b = dset a ''photo'' (VStr u))) cache2 (orders_cache st2)"
    by simp
  have c3: "list_all2 carries_edits (orders_cache st @ tail) (orders_cache st2)"
  proof (rule list_all2_trans[OF _ c2 p])
    fix a b c
    assume "carries_edits a b" "c = b \<or> (\<exists>u. c = dset b ''photo'' (VStr u))"
    then show "carries_edits a c" by (rule carries_edits_photo)
  qed
  have "orders_cache (snd (incremental_update_cache e fetched st)) = cache2 \<or>
        orders_cache (snd (incremental_update_cache e fetched st)) = orders_cache st2"
    using f d unfolding Some
    by (simp add: incremental_update_cache_def Let_def new_orders_def[symmetric]
        current_ids_def[symmetric] new_order_ids_def[symmetric] tail_def[symmetric] save_cache_def
        split: option.splits)
  with c2 c3 show ?thesis by auto
qed

lemma incremental_position:
  assumes "i < length (orders_cache st)"
  shows "i < length (orders_cache (snd (incremental_update_cache e fetched st))) \<and>
     carries_edits (orders_cache st ! i) (orders_cache (snd (incremental_update_cache e fetched st)) ! i)"
proof -
  from incremental_carries[of st e fetched] obtain tail where
    l: "list_all2 carries_edits (orders_cache st @ tail)
     (orders_cache (snd (incremental_update_cache e fetched st)))"
    by auto
  from assms have i: "i < length (orders_cache st @ tail)" by simp
  from list_all2_lengthD[OF l] i
  have "i < length (orders_cache (snd (incremental_update_cache e fetched st)))" by simp
  moreover from list_all2_nthD[OF l i] assms
  have "carries_edits (orders_cache st ! i) (orders_cache (snd (incremental_update_cache e fetched st)) ! i)"
    by (simp add: nth_append)
  ultimately show ?thesis by simp
qed
lemma dget_preserve:
  assumes "b \<noteq> []" "g \<in> set editable_field_groups" "preserved_value c g \<noteq> VNone"
  shows "dget (preserve_editable_fields b c) (fst g) = preserved_value c g \<and>
         dget (preserve_editable_fields b c) (snd g) = preserved_value c g"
  using map_of_preserve[OF assms(1,2), of "fst g" c] map_of_preserve[OF assms(1,2), of "snd g" c]
    assms(3)
  by (simp add: dget_def)

lemma produce_note_groups:
  "(''Produce'', ''Kesildi'') \<in> set editable_field_groups"
  "(''Note'', ''importantnote'') \<in> set editable_field_groups"
  by (simp_all add: editable_field_groups_def)

text \<open>
  C2, as the code has it. Take a cached order \<open>c\<close> and read its editable fields as the
  preserver does, the canonical name before the display name. After a full replace, when
  \<open>c\<close> is the first cached row of its identifier, and after a quick sync, when it is
  the last, the cache holds a row that carries every such value of \<open>c\<close>: \<open>c\<close>
  itself, or the fetched row of that identifier with the values of \<open>c\<close> copied under
  both names. After an incremental merge the row at the place of \<open>c\<close> carries them. So
  a Produce flag read as "TRUE" and a note read as "hello" are still read so after any
  merge, whatever the fetched row holds.
\<close>

theorem merges_keep_edits:
  "(first_existing (orders_cache st) (cached_id c) = Some c \<longrightarrow>
      (\<exists>r \<in> set (full_replace (orders_cache st) new_orders). carries_edits c r \<and>
         (r = c \<or> (\<exists>b \<in> set new_orders. hash_key (fetched_id b) = hash_key (cached_id c) \<and>
            r = preserve_editable_fields b c))) \<and>
      (\<exists>r \<in> set (orders_cache (snd (update_cache e download_images fetched st))).
         carries_edits c r)) \<and>
   (\<forall>i < length (orders_cache st).
      i < length (orders_cache (snd (incremental_update_cache e fetched st))) \<and>
      carries_edits (orders_cache st ! i)
        (orders_cache (snd (incremental_update_cache e fetched st)) ! i)) \<and>
   (last_existing (orders_cache st) (cached_id c) = Some c \<longrightarrow>
      (\<exists>r \<in> set (quick_sync (orders_cache st) latest). carries_edits c r \<and>
         (r = c \<or> (\<exists>b \<in> set latest. hash_key (cached_id b) = hash_key (cached_id c) \<and>
            r = preserve_editable_fields b c))) \<and>
      (\<exists>r \<in> set (orders_cache (snd (sync_latest_orders e clock fetched st))).
         carries_edits c r)) \<and>
   (carries_edits c r \<and> preserved_value c (''Produce'', ''Kesildi'') = VStr ''TRUE'' \<and>
    preserved_value c (''Note'', ''importantnote'') = VStr ''hello'' \<longrightarrow>
      preserved_value r (''Produce'', ''Kesildi'') = VStr ''TRUE'' \<and>
      preserved_value r (''Note'', ''importantnote'') = VStr ''hello'') \<and>
   (b \<noteq> [] \<and> g \<in> set editable_field_groups \<and> preserved_value c g \<noteq> VNone \<longrightarrow>
      dget (preserve_editable_fields b c) (fst g) = preserved_value c g \<and>
      dget (preserve_editable_fields b c) (snd g) = preserved_value c g)"
proof (intro conjI impI allI)
  assume a: "first_existing (orders_cache st) (cached_id c) = Some c"
  then show "\<exists>r \<in> set (full_replace (orders_cache st) new_orders). carries_edits c r \<and>
         (r = c \<or> (\<exists>b \<in> set new_orders. hash_key (fetched_id b) = hash_key (cached_id c) \<and>
            r = preserve_editable_fields b c))"
    by (rule full_replace_carries)
  from a show "\<exists>r \<in> set (orders_cache (snd (update_cache e download_images fetched st))).
         carries_edits c r"
    by (rule update_cache_carries)
next
  fix i assume i: "i < length (orders_cache st)"
  from incremental_position[OF i, of e fetched]
  show "i < length (orders_cache (snd (incremental_update_cache e fetched st)))"
    by simp
  from incremental_position[OF i, of e fetched]
  show "carries_edits (orders_cache st ! i)
        (orders_cache (snd (incremental_update_cache e fetched st)) ! i)"
    by simp
next
  assume a: "last_existing (orders_cache st) (cached_id c) = Some c"
  then show "\<exists>r \<in> set (quick_sync (orders_cache st) latest). carries_edits c r \<and>
         (r = c \<or> (\<exists>b \<in> set latest. hash_key (cached_id b) = hash_key (cached_id c) \<and>
            r = preserve_editable_fields b c))"
    by (rule quick_sync_carries)
  from a show "\<exists>r \<in> set (orders_cache (snd (sync_latest_orders e clock fetched st))).
         carries_edits c r"
    by (rule sync_latest_carries)
next
  assume a: "carries_edits c r \<and> preserved_value c (''Produce'', ''Kesildi'') = VStr ''TRUE'' \<and>
    preserved_value c (''Note'', ''importantnote'') = VStr ''hello''"
  then show "preserved_value r (''Produce'', ''Kesildi'') = VStr ''TRUE''"
    using produce_note_groups(1) unfolding carries_edits_def by force
  from a show "preserved_value r (''Note'', ''importantnote'') = VStr ''hello''"
    using produce_note_groups(2) unfolding carries_edits_def by force
next
  assume a: "b \<noteq> [] \<and> g \<in> set editable_field_groups \<and> preserved_value c g \<noteq> VNone"
  then show "dget (preserve_editable_fields b c) (fst g) = preserved_value c g"
    using dget_preserve[of b g c] by simp
  from a show "dget (preserve_editable_fields b c) (snd g) = preserved_value c g"
    using dget_preserve[of b g c] by simp
qed

lemma edit_example:
  "first_existing [edited_order] (cached_id edited_order) = Some edited_order"
  "last_existing [edited_order] (cached_id edited_order) = Some edited_order"
  "preserved_value edited_order (''Produce'', ''Kesildi'') = VStr ''TRUE''"
  "preserved_value edited_order (''Note'', ''importantnote'') = VStr ''hello''"
  "orders_cache (snd (update_cache plain_env True (Some [sheet_row])
      \<lparr>orders_cache = [edited_order], cache_file = Some [edited_order]\<rparr>)) =
     [[(''Transaction ID'', VStr ''T1''), (''Produce'', VStr ''TRUE''), (''Note'', VStr ''hello''),
       (''Kesildi'', VStr ''TRUE''), (''importantnote'', VStr ''hello'')]]"
  "orders_cache (snd (sync_latest_orders plain_env (\<lambda>_. (2026, 11, 3, 12, 0, 0, 0)) (Some [sheet_row])
      \<lparr>orders_cache = [edited_order], cache_file = Some [edited_order]\<rparr>)) =
     [[(''Transaction ID'', VStr ''T1''), (''Produce'', VStr ''TRUE''), (''Note'', VStr ''hello''),
       (''Kesildi'', VStr ''TRUE''), (''importantnote'', VStr ''hello'')]]"
  "orders_cache (snd (incremental_update_cache plain_env (Some [sheet_row])
      \<lparr>orders_cache = [edited_order], cache_file = Some [edited_order]\<rparr>)) = [edited_order]"
  by code_simp+

text \<open>
  The cached order T1 with Produce "TRUE" and the note "hello", and a fetch of the row of
  T1 with Produce "FALSE" and an empty note, under each of the three merges.
\<close>

theorem merges_keep_edits_witness:
  "first_existing [edited_order] (cached_id edited_order) = Some edited_order \<and>
   last_existing [edited_order] (cached_id edited_order) = Some edited_order \<and>
   preserved_value edited_order (''Produce'', ''Kesildi'') = VStr ''TRUE'' \<and>
   preserved_value edited_order (''Note'', ''importantnote'') = VStr ''hello'' \<and>
   (\<exists>r \<in> set (orders_cache (snd (update_cache plain_env True (Some [sheet_row])
      \<lparr>orders_cache = [edited_order], cache_file = Some [edited_order]\<rparr>))).
      carries_edits edited_order r) \<and>
   (\<exists>r \<in> set (orders_cache (snd (sync_latest_orders plain_env (\<lambda>_. (2026, 11, 3, 12, 0, 0, 0))
      (Some [sheet_row]) \<lparr>orders_cache = [edited_order], cache_file = Some [edited_order]\<rparr>))).
      carries_edits edited_order r) \<and>
   carries_edits edited_order
     (orders_cache (snd (incremental_update_cache plain_env (Some [sheet_row])
        \<lparr>orders_cache = [edited_order], cache_file = Some [edited_order]\<rparr>)) ! 0)"
  using merges_keep_edits [where st = "\<lparr>orders_cache = [edited_order], cache_file = Some [edited_order]\<rparr>"
      and c = edited_order and e = plain_env and download_images = True
      and fetched = "Some [sheet_row]" and clock = "\<lambda>_. (2026, 11, 3, 12, 0, 0, 0)"
      and new_orders = "[sheet_row]" and latest = "[sheet_row]" and r = edited_order
      and b = sheet_row and g = "(''Produce'', ''Kesildi'')"]
    edit_example(1-4)
  by simp

text \<open>
  C2 as the specification states it fails: the cached order T1 has Produce "TRUE" and the
  note "hello", and also the canonical name of the flag, Kesildi, with "FALSE". Its
  Produce flag is read as true by the tracker and the view. After a full replace by the
  row the sheet has for T1, Produce is "FALSE".
\<close>

theorem edit_preservation_counterexample:
  "dget split_order ''Produce'' = VStr ''TRUE'' \<and> dget split_order ''Note'' = VStr ''hello'' \<and>
   get_order_stage_flags split_order = (True, False, False) \<and>
   get_checkbox_string split_order ''Produce'' ''Kesildi'' = ''TRUE'' \<and>
   fetched_id sheet_row = cached_id split_order \<and>
   orders_cache (snd (update_cache plain_env True (Some [sheet_row])
      \<lparr>orders_cache = [split_order], cache_file = Some [split_order]\<rparr>)) =
     [[(''Transaction ID'', VStr ''T1''), (''Produce'', VStr ''FALSE''), (''Note'', VStr ''hello''),
       (''Kesildi'', VStr ''FALSE''), (''importantnote'', VStr ''hello'')]]"
  by code_simp

section \<open>Repeating the full replace\<close>

lemma add_new_orders_first_rows:
  "add_new_orders cache seen new_orders =
     (map (merged_row cache) (first_rows seen new_orders),
      rev (map (\<lambda>b. hash_key (fetched_id b)) (first_rows seen new_orders)) @ seen)"
  by (induction new_orders arbitrary: seen) (auto simp: Let_def merged_row_def)

lemma first_rows_props:
  "(\<forall>b \<in> set (first_rows seen new_orders).
      b \<in> set new_orders \<and> truthy (fetched_id b) \<and> hash_key (fetched_id b) \<notin> set seen) \<and>
   distinct (map (\<lambda>b. hash_key (fetched_id b)) (first_rows seen new_orders))"
proof (induction new_orders arbitrary: seen)
  case Nil
  show ?case by simp
next
  case (Cons order rest)
  from Cons.IH[of seen] Cons.IH[of "hash_key (fetched_id order) # seen"]
  show ?case by auto
qed

lemma full_replace_first_rows:
  "full_replace cache new_orders =
     map (merged_row cache) (first_rows [] new_orders) @
     filter (\<lambda>c. truthy (cached_id c) \<and>
               hash_key (cached_id c) \<notin>
                 set (map (\<lambda>b. hash_key (fetched_id b)) (first_rows [] new_orders))) cache"
  by (simp add: full_replace_def add_new_orders_first_rows)

lemma find_map_unique:
  "distinct (map key D) \<Longrightarrow> b \<in> set D \<Longrightarrow> (\<forall>b' \<in> set D. P (\<rho> b') = (key b' = key b)) \<Longrightarrow>
   find P (map \<rho> D) = Some (\<rho> b)"
proof (induction D)
  case Nil
  then show ?case by simp
next
  case (Cons a D)
  show ?case
  proof (cases "a = b")
    case True
    with Cons.prems(3) show ?thesis by simp
  next
    case False
    with Cons.prems have b: "b \<in> set D" and "key a \<noteq> key b" by auto
    with Cons.prems(3) have "\<not> P (\<rho> a)" by simp
    moreover from Cons.prems b have "find P (map \<rho> D) = Some (\<rho> b)"
      by (intro Cons.IH) auto
    ultimately show ?thesis by simp
  qed
qed

lemma find_append_Some: "find P xs = Some x \<Longrightarrow> find P (xs @ ys) = Some x"
  by (induction xs) (auto split: if_splits)

lemma merged_row_id: "cached_id (merged_row cache b) = cached_id b"
  by (simp add: merged_row_def preserve_keeps_identifier split: option.splits)

lemma full_replace_again:
  assumes ids: "\<forall>b \<in> set new_orders. hash_key (fetched_id b) = hash_key (cached_id b)"
    and rho: "\<forall>b. cached_id (\<rho> b) = cached_id b"
    and orphans: "\<forall>x \<in> set rest. truthy (cached_id x) \<and>
        hash_key (cached_id x) \<notin> set (map (\<lambda>b. hash_key (fetched_id b)) (first_rows [] new_orders))"
  shows "full_replace (map \<rho> (first_rows [] new_orders) @ rest) new_orders =
     map (\<lambda>b. preserve_editable_fields b (\<rho> b)) (first_rows [] new_orders) @ rest"
proof -
  let ?D = "first_rows [] new_orders"
  let ?S = "set (map (\<lambda>b. hash_key (fetched_id b)) ?D)"
  let ?Q = "\<lambda>c. truthy (cached_id c) \<and> hash_key (cached_id c) \<notin> ?S"
  from first_rows_props[of "[]" new_orders]
  have D: "\<forall>b \<in> set ?D. b \<in> set new_orders \<and> truthy (fetched_id b)"
    and dist: "distinct (map (\<lambda>b. hash_key (fetched_id b)) ?D)"
    by auto
  have 1: "filter ?Q (map \<rho> ?D) = []"
  proof -
    have "\<not> ?Q (\<rho> b)" if "b \<in> set ?D" for b
    proof -
      from that D ids have "hash_key (cached_id (\<rho> b)) = hash_key (fetched_id b)"
        by (simp add: rho)
      with that show ?thesis by auto
    qed
    then show ?thesis by (auto simp: filter_empty_conv)
  qed
  have 2: "filter ?Q rest = rest"
    using orphans by (simp add: filter_id_conv)
  have 3: "merged_row (map \<rho> ?D @ rest) b = preserve_editable_fields b (\<rho> b)"
    if b: "b \<in> set ?D" for b
  proof -
    let ?P = "\<lambda>existing_order. truthy (cached_id existing_order) \<and>
             py_eq (cached_id existing_order) (fetched_id b)"
    have "\<forall>b' \<in> set ?D. ?P (\<rho> b') = (hash_key (fetched_id b') = hash_key (fetched_id b))"
    proof
      fix b' assume b': "b' \<in> set ?D"
      with D ids have "hash_key (cached_id b') = hash_key (fetched_id b')" "truthy (cached_id b')"
        by (auto simp: truthy_ids)
      then show "?P (\<rho> b') = (hash_key (fetched_id b') = hash_key (fetched_id b))"
        by (simp add: rho py_eq_def)
    qed
    from find_map_unique[of "\<lambda>b. hash_key (fetched_id b)" ?D b ?P \<rho>, OF dist b this]
    have "find ?P (map \<rho> ?D @ rest) = Some (\<rho> b)"
      by (rule find_append_Some)
    then show ?thesis
      by (simp add: merged_row_def first_existing_def)
  qed
  show ?thesis
    unfolding full_replace_first_rows[of "map \<rho> ?D @ rest"]
    using 1 2 3 by simp
qed

lemma preserve_group_cong:
  "preserved_value s g = preserved_value s' g \<Longrightarrow> preserve_group s g t = preserve_group s' g t"
  by (simp add: preserve_group_def)

lemma fold_preserve_group_cong:
  "\<forall>g \<in> set gs. preserved_value s g = preserved_value s' g \<Longrightarrow>
   fold (preserve_group s) gs t = fold (preserve_group s') gs t"
proof (induction gs arbitrary: t)
  case Nil
  show ?case by simp
next
  case (Cons g gs)
  from Cons.prems have "preserve_group s g t = preserve_group s' g t"
    by (intro preserve_group_cong) simp
  moreover from Cons.prems have "fold (preserve_group s) gs (preserve_group s' g t) =
      fold (preserve_group s') gs (preserve_group s' g t)"
    by (intro Cons.IH) simp
  ultimately show ?case by simp
qed

lemma preserve_depends:
  assumes "\<forall>g \<in> set editable_field_groups. preserved_value s g = preserved_value s' g"
  shows "preserve_editable_fields t s = preserve_editable_fields t s'"
proof (cases "t = []")
  case True
  then show ?thesis by (simp add: preserve_editable_fields_def)
next
  case False
  with fold_preserve_group_cong[OF assms] show ?thesis
    by (simp add: preserve_as_fold)
qed

lemma preserve_twice:
  assumes b: "b \<noteq> []"
    and r: "\<forall>g \<in> set editable_field_groups. preserved_value r g = VNone \<longrightarrow> preserved_value b g = VNone"
  shows "preserve_editable_fields b (preserve_editable_fields b r) = preserve_editable_fields b r"
proof (rule preserve_depends, rule ballI)
  fix g assume g: "g \<in> set editable_field_groups"
  with r show "preserved_value (preserve_editable_fields b r) g = preserved_value r g"
    by (simp add: preserved_value_preserve[OF b g])
qed

lemma merged_row_fills:
  assumes "b \<noteq> []" "g \<in> set editable_field_groups" "preserved_value (merged_row cache b) g = VNone"
  shows "preserved_value b g = VNone"
  using assms
  by (auto simp: merged_row_def preserved_value_preserve split: option.splits if_splits)

lemma full_replace_twice:
  assumes ids: "\<forall>b \<in> set new_orders. hash_key (fetched_id b) = hash_key (cached_id b)"
  shows "full_replace (full_replace cache new_orders) new_orders =
     map (\<lambda>b. preserve_editable_fields b (merged_row cache b)) (first_rows [] new_orders) @
     filter (\<lambda>c. truthy (cached_id c) \<and>
               hash_key (cached_id c) \<notin>
                 set (map (\<lambda>b. hash_key (fetched_id b)) (first_rows [] new_orders))) cache"
  unfolding full_replace_first_rows[of cache]
  by (rule full_replace_again[OF ids]) (simp_all add: merged_row_id)

lemma full_replace_thrice:
  assumes ids: "\<forall>b \<in> set new_orders. hash_key (fetched_id b) = hash_key (cached_id b)"
  shows "full_replace (full_replace (full_replace cache new_orders) new_orders) new_orders =
     full_replace (full_replace cache new_orders) new_orders"
proof -
  let ?D = "first_rows [] new_orders"
  have "full_replace (full_replace (full_replace cache new_orders) new_orders) new_orders =
     map (\<lambda>b. preserve_editable_fields b (preserve_editable_fields b (merged_row cache b))) ?D @
     filter (\<lambda>c. truthy (cached_id c) \<and>
               hash_key (cached_id c) \<notin> set (map (\<lambda>b. hash_key (fetched_id b)) ?D)) cache"
    unfolding full_replace_twice[OF ids]
    by (rule full_replace_again[OF ids])
       (simp_all add: merged_row_id preserve_keeps_identifier)
  moreover have "preserve_editable_fields b (preserve_editable_fields b (merged_row cache b)) =
      preserve_editable_fields b (merged_row cache b)" if "b \<in> set ?D" for b
  proof -
    from that first_rows_props[of "[]" new_orders] have "truthy (fetched_id b)" by auto
    then have b: "b \<noteq> []" by (auto simp: truthy_ids dest: truthy_id_not_Nil)
    show ?thesis
      by (rule preserve_twice[OF b]) (auto dest: merged_row_fills[OF b])
  qed
  ultimately show ?thesis
    by (simp add: full_replace_twice[OF ids])
qed
lemma dset_same: "map_of t k = Some v \<Longrightarrow> dset t k v = t"
  by (induction t) (auto split: if_splits)

lemma preserve_group_noop:
  assumes "map_of t (fst g) = Some (preserved_value s g)" "map_of t (snd g) = Some (preserved_value s g)"
  shows "preserve_group s g t = t"
  using assms by (simp add: preserve_group_def dset_same)

lemma preserve_group_None: "preserved_value s g = VNone \<Longrightarrow> preserve_group s g t = t"
  by (simp add: preserve_group_def)

lemma fold_preserve_noop:
  "distinct gs \<Longrightarrow> set gs \<subseteq> set editable_field_groups \<Longrightarrow>
   (\<forall>g \<in> set gs. preserved_value s g = preserved_value s' g \<or>
      (preserved_value s' g = VNone \<and> map_of t (fst g) = Some (preserved_value s g) \<and>
       map_of t (snd g) = Some (preserved_value s g))) \<Longrightarrow>
   fold (preserve_group s) gs t = fold (preserve_group s') gs t"
proof (induction gs arbitrary: t)
  case Nil
  show ?case by simp
next
  case (Cons a gs)
  from Cons.prems have a: "a \<in> set editable_field_groups" and d: "distinct gs"
    and sub: "set gs \<subseteq> set editable_field_groups" and na: "a \<notin> set gs"
    by auto
  from Cons.prems(3) have "preserved_value s a = preserved_value s' a \<or>
      (preserved_value s' a = VNone \<and> map_of t (fst a) = Some (preserved_value s a) \<and>
       map_of t (snd a) = Some (preserved_value s a))"
    by simp
  then show ?case
  proof
    assume eq: "preserved_value s a = preserved_value s' a"
    then have same: "preserve_group s a t = preserve_group s' a t"
      by (rule preserve_group_cong)
    have "\<forall>g \<in> set gs. preserved_value s g = preserved_value s' g \<or>
      (preserved_value s' g = VNone \<and>
       map_of (preserve_group s' a t) (fst g) = Some (preserved_value s g) \<and>
       map_of (preserve_group s' a t) (snd g) = Some (preserved_value s g))"
    proof
      fix g assume g: "g \<in> set gs"
      with sub na have ge: "g \<in> set editable_field_groups" and "g \<noteq> a" by auto
      from group_keys_distinct[OF ge a this(2)]
      have "map_of (preserve_group s' a t) (fst g) = map_of t (fst g)"
        "map_of (preserve_group s' a t) (snd g) = map_of t (snd g)"
        by (simp_all add: map_of_preserve_group)
      with Cons.prems(3) g show "preserved_value s g = preserved_value s' g \<or>
        (preserved_value s' g = VNone \<and>
         map_of (preserve_group s' a t) (fst g) = Some (preserved_value s g) \<and>
         map_of (preserve_group s' a t) (snd g) = Some (preserved_value s g))"
        by simp
    qed
    from Cons.IH[OF d sub this] same show ?thesis by simp
  next
    assume n: "preserved_value s' a = VNone \<and> map_of t (fst a) = Some (preserved_value s a) \<and>
       map_of t (snd a) = Some (preserved_value s a)"
    then have "preserve_group s a t = t" "preserve_group s' a t = t"
      by (simp_all add: preserve_group_noop preserve_group_None)
    moreover from Cons.prems(3) have "\<forall>g \<in> set gs. preserved_value s g = preserved_value s' g \<or>
      (preserved_value s' g = VNone \<and> map_of t (fst g) = Some (preserved_value s g) \<and>
       map_of t (snd g) = Some (preserved_value s g))"
      by simp
    ultimately show ?thesis using Cons.IH[OF d sub] by simp
  qed
qed

lemma self_preserved:
  assumes "preserve_editable_fields b b = b" "b \<noteq> []" "g \<in> set editable_field_groups"
    "preserved_value b g \<noteq> VNone"
  shows "map_of b (fst g) = Some (preserved_value b g) \<and> map_of b (snd g) = Some (preserved_value b g)"
  using map_of_preserve[OF assms(2,3), of "fst g" b] map_of_preserve[OF assms(2,3), of "snd g" b]
    assms(1,4)
  by simp

lemma preserve_settled:
  assumes self: "preserve_editable_fields b b = b" and b: "b \<noteq> []"
  shows "preserve_editable_fields b (preserve_editable_fields b ex) = preserve_editable_fields b ex"
proof -
  let ?r = "preserve_editable_fields b ex"
  have "\<forall>g \<in> set editable_field_groups. preserved_value ?r g = preserved_value ex g \<or>
      (preserved_value ex g = VNone \<and> map_of b (fst g) = Some (preserved_value ?r g) \<and>
       map_of b (snd g) = Some (preserved_value ?r g))"
  proof
    fix g assume g: "g \<in> set editable_field_groups"
    show "preserved_value ?r g = preserved_value ex g \<or>
      (preserved_value ex g = VNone \<and> map_of b (fst g) = Some (preserved_value ?r g) \<and>
       map_of b (snd g) = Some (preserved_value ?r g))"
    proof (cases "preserved_value ex g = VNone \<and> preserved_value b g \<noteq> VNone")
      case True
      with self_preserved[OF self b g] show ?thesis
        by (simp add: preserved_value_preserve[OF b g])
    next
      case False
      then show ?thesis
        by (auto simp: preserved_value_preserve[OF b g])
    qed
  qed
  from fold_preserve_noop[OF editable_field_groups_distinct subset_refl this]
  show ?thesis
    by (simp add: preserve_as_fold[OF b])
qed

lemma merged_row_settled:
  assumes "preserve_editable_fields b b = b" "b \<noteq> []"
  shows "preserve_editable_fields b (merged_row cache b) = merged_row cache b"
  using assms by (simp add: merged_row_def preserve_settled split: option.splits)

lemma first_rows_not_Nil: "b \<in> set (first_rows seen new_orders) \<Longrightarrow> b \<noteq> [] \<and> b \<in> set new_orders"
  using first_rows_props[of seen new_orders]
  by (auto simp: truthy_ids dest: truthy_id_not_Nil)

lemma full_replace_twice_settled:
  assumes ids: "\<forall>b \<in> set new_orders. hash_key (fetched_id b) = hash_key (cached_id b)"
    and self: "\<forall>b \<in> set new_orders. preserve_editable_fields b b = b"
  shows "full_replace (full_replace cache new_orders) new_orders = full_replace cache new_orders"
proof -
  let ?O = "filter (\<lambda>c. truthy (cached_id c) \<and>
               hash_key (cached_id c) \<notin>
                 set (map (\<lambda>b. hash_key (fetched_id b)) (first_rows [] new_orders))) cache"
  have eq2: "full_replace (full_replace cache new_orders) new_orders =
     map (\<lambda>b. preserve_editable_fields b (merged_row cache b)) (first_rows [] new_orders) @ ?O"
    by (rule full_replace_twice[OF ids])
  have eq1: "full_replace cache new_orders =
     map (merged_row cache) (first_rows [] new_orders) @ ?O"
    by (rule full_replace_first_rows)
  have "map (\<lambda>b. preserve_editable_fields b (merged_row cache b)) (first_rows [] new_orders) =
        map (merged_row cache) (first_rows [] new_orders)"
    by (rule map_cong[OF refl]) (use self first_rows_not_Nil in \<open>auto intro!: merged_row_settled\<close>)
  with eq2 have "full_replace (full_replace cache new_orders) new_orders =
     map (merged_row cache) (first_rows [] new_orders) @ ?O"
    by simp
  with eq1 show ?thesis by simp
qed

lemma full_replace_twice_rel:
  assumes ids: "\<forall>b \<in> set new_orders. hash_key (fetched_id b) = hash_key (cached_id b)"
  shows "list_all2 (\<lambda>r1 r2. r2 = r1 \<or>
        (\<exists>b \<in> set new_orders. b \<noteq> [] \<and> cached_id r1 = cached_id b \<and>
           r2 = preserve_editable_fields b r1))
     (full_replace cache new_orders) (full_replace (full_replace cache new_orders) new_orders)"
proof -
  let ?R = "\<lambda>r1 r2. r2 = r1 \<or>
        (\<exists>b \<in> set new_orders. b \<noteq> [] \<and> cached_id r1 = cached_id b \<and>
           r2 = preserve_editable_fields b r1)"
  let ?O = "filter (\<lambda>c. truthy (cached_id c) \<and>
               hash_key (cached_id c) \<notin>
                 set (map (\<lambda>b. hash_key (fetched_id b)) (first_rows [] new_orders))) cache"
  have eq2: "full_replace (full_replace cache new_orders) new_orders =
     map (\<lambda>b. preserve_editable_fields b (merged_row cache b)) (first_rows [] new_orders) @ ?O"
    by (rule full_replace_twice[OF ids])
  have eq1: "full_replace cache new_orders =
     map (merged_row cache) (first_rows [] new_orders) @ ?O"
    by (rule full_replace_first_rows)
  have "\<forall>b \<in> set (first_rows [] new_orders).
      ?R (merged_row cache b) (preserve_editable_fields b (merged_row cache b))"
    using first_rows_not_Nil[of _ "[]" new_orders] by (auto simp: merged_row_id)
  then have "list_all2 ?R (map (merged_row cache) (first_rows [] new_orders))
     (map (\<lambda>b. preserve_editable_fields b (merged_row cache b)) (first_rows [] new_orders))"
    by (simp add: list_all2_map1 list_all2_map2 list_all2_same)
  moreover have "list_all2 ?R ?O ?O"
    by (simp add: list_all2_refl)
  ultimately have "list_all2 ?R (map (merged_row cache) (first_rows [] new_orders) @ ?O)
     (map (\<lambda>b. preserve_editable_fields b (merged_row cache b)) (first_rows [] new_orders) @ ?O)"
    by (rule list_all2_appendI)
  then show ?thesis
    by (subst eq2, subst eq1)
qed

lemma full_replace_twice_carries:
  assumes ids: "\<forall>b \<in> set new_orders. hash_key (fetched_id b) = hash_key (cached_id b)"
  shows "list_all2 (\<lambda>r1 r2. carries_edits r1 r2 \<and> cached_id r2 = cached_id r1)
     (full_replace cache new_orders) (full_replace (full_replace cache new_orders) new_orders)"
  by (rule list_all2_mono[OF full_replace_twice_rel[OF ids]])
     (auto simp: carries_edits_refl preserve_keeps_identifier intro: carries_edits_preserve)

lemma limit_orders_subset: "set (limit_orders e rows) \<subseteq> set rows"
  by (auto simp: limit_orders_def dest: in_set_takeD split: option.splits)

lemma update_cache_plain:
  "snd (update_cache e False (Some rows) st) =
     (if startup_mode e then st
      else st\<lparr>orders_cache := full_replace (orders_cache st) (limit_orders e rows),
              cache_file := Some (full_replace (orders_cache st) (limit_orders e rows))\<rparr>)"
  by (simp add: update_cache_def Let_def save_cache_def)
lemma update_cache_thrice:
  assumes "full_replace (full_replace (full_replace (orders_cache st) (limit_orders e rows))
       (limit_orders e rows)) (limit_orders e rows) =
     full_replace (full_replace (orders_cache st) (limit_orders e rows)) (limit_orders e rows)"
  shows "snd (update_cache e False (Some rows)
       (snd (update_cache e False (Some rows) (snd (update_cache e False (Some rows) st))))) =
     snd (update_cache e False (Some rows) (snd (update_cache e False (Some rows) st)))"
  using assms by (simp add: update_cache_plain)

lemma update_cache_twice:
  assumes "full_replace (full_replace (orders_cache st) (limit_orders e rows)) (limit_orders e rows) =
     full_replace (orders_cache st) (limit_orders e rows)"
  shows "snd (update_cache e False (Some rows) (snd (update_cache e False (Some rows) st))) =
     snd (update_cache e False (Some rows) st)"
  using assms by (simp add: update_cache_plain)

text \<open>
  C3, as the code has it. For a fetch whose rows have one identifier under both orders of
  lookup, a third full replace gives what the second gave: the merge is idempotent from
  the second application on. The second keeps the rows of the first in their order, with
  their identifiers and with every editable value they carry; it may add to a row the
  second name of an editable field of the fetched row. When every fetched row is left
  as it is by the preserver applied to itself, the second full replace gives what the
  first gave. The same holds of \<open>update_cache\<close> without the image step.
\<close>

theorem full_replace_settles:
  "((\<forall>b \<in> set new_orders. hash_key (fetched_id b) = hash_key (cached_id b)) \<longrightarrow>
      full_replace (full_replace (full_replace cache new_orders) new_orders) new_orders =
        full_replace (full_replace cache new_orders) new_orders \<and>
      list_all2 (\<lambda>r1 r2. carries_edits r1 r2 \<and> cached_id r2 = cached_id r1)
        (full_replace cache new_orders) (full_replace (full_replace cache new_orders) new_orders) \<and>
      ((\<forall>b \<in> set new_orders. preserve_editable_fields b b = b) \<longrightarrow>
         full_replace (full_replace cache new_orders) new_orders = full_replace cache new_orders)) \<and>
   ((\<forall>b \<in> set rows. hash_key (fetched_id b) = hash_key (cached_id b)) \<longrightarrow>
      snd (update_cache e False (Some rows)
        (snd (update_cache e False (Some rows) (snd (update_cache e False (Some rows) st))))) =
      snd (update_cache e False (Some rows) (snd (update_cache e False (Some rows) st))) \<and>
      ((\<forall>b \<in> set rows. preserve_editable_fields b b = b) \<longrightarrow>
         snd (update_cache e False (Some rows) (snd (update_cache e False (Some rows) st))) =
         snd (update_cache e False (Some rows) st)))"
proof (intro conjI impI)
  assume ids: "\<forall>b \<in> set new_orders. hash_key (fetched_id b) = hash_key (cached_id b)"
  then show "full_replace (full_replace (full_replace cache new_orders) new_orders) new_orders =
        full_replace (full_replace cache new_orders) new_orders"
    by (rule full_replace_thrice)
  from ids show "list_all2 (\<lambda>r1 r2. carries_edits r1 r2 \<and> cached_id r2 = cached_id r1)
        (full_replace cache new_orders) (full_replace (full_replace cache new_orders) new_orders)"
    by (rule full_replace_twice_carries)
  assume "\<forall>b \<in> set new_orders. preserve_editable_fields b b = b"
  with ids show "full_replace (full_replace cache new_orders) new_orders = full_replace cache new_orders"
    by (rule full_replace_twice_settled)
next
  assume "\<forall>b \<in> set rows. hash_key (fetched_id b) = hash_key (cached_id b)"
  with limit_orders_subset[of e rows]
  have ids: "\<forall>b \<in> set (limit_orders e rows). hash_key (fetched_id b) = hash_key (cached_id b)"
    by blast
  show "snd (update_cache e False (Some rows)
        (snd (update_cache e False (Some rows) (snd (update_cache e False (Some rows) st))))) =
      snd (update_cache e False (Some rows) (snd (update_cache e False (Some rows) st)))"
    by (rule update_cache_thrice) (rule full_replace_thrice[OF ids])
  assume "\<forall>b \<in> set rows. preserve_editable_fields b b = b"
  with limit_orders_subset[of e rows]
  have self: "\<forall>b \<in> set (limit_orders e rows). preserve_editable_fields b b = b"
    by blast
  show "snd (update_cache e False (Some rows) (snd (update_cache e False (Some rows) st))) =
         snd (update_cache e False (Some rows) st)"
    by (rule update_cache_twice) (rule full_replace_twice_settled[OF ids self])
qed

lemma settle_example:
  "\<forall>b \<in> set [sheet_row]. hash_key (fetched_id b) = hash_key (cached_id b)"
  "\<forall>b \<in> set [example_synced]. hash_key (fetched_id b) = hash_key (cached_id b)"
  "\<forall>b \<in> set [example_synced]. preserve_editable_fields b b = b"
  by code_simp+

text \<open>
  The row of the sheet for T1 merged three times into the cache of the edited order, and
  a row with no editable field merged twice.
\<close>

theorem full_replace_settles_witness:
  "hash_key (fetched_id sheet_row) = hash_key (cached_id sheet_row) \<and>
   full_replace (full_replace (full_replace [edited_order] [sheet_row]) [sheet_row]) [sheet_row] =
     full_replace (full_replace [edited_order] [sheet_row]) [sheet_row] \<and>
   hash_key (fetched_id example_synced) = hash_key (cached_id example_synced) \<and>
   preserve_editable_fields example_synced example_synced = example_synced \<and>
   full_replace (full_replace [edited_order] [example_synced]) [example_synced] =
     full_replace [edited_order] [example_synced] \<and>
   snd (update_cache plain_env False (Some [example_synced])
     (snd (update_cache plain_env False (Some [example_synced])
        \<lparr>orders_cache = [edited_order], cache_file = None\<rparr>))) =
   snd (update_cache plain_env False (Some [example_synced])
        \<lparr>orders_cache = [edited_order], cache_file = None\<rparr>)"
  using full_replace_settles [where new_orders = "[sheet_row]" and cache = "[edited_order]"
      and rows = "[sheet_row]" and e = plain_env
      and st = "\<lparr>orders_cache = [edited_order], cache_file = None\<rparr>"]
    full_replace_settles [where new_orders = "[example_synced]" and cache = "[edited_order]"
      and rows = "[example_synced]" and e = plain_env
      and st = "\<lparr>orders_cache = [edited_order], cache_file = None\<rparr>"]
    settle_example
  by simp

text \<open>
  C3 as the specification states it fails: into an empty cache, the row the sheet has for
  T1, with Produce "FALSE" and an empty note, is stored as it is by the first full
  replace, and with the keys Kesildi and importantnote added by the second.
\<close>

theorem full_replace_idempotence_counterexample:
  "orders_cache (snd (update_cache plain_env True (Some [sheet_row])
      \<lparr>orders_cache = [], cache_file = None\<rparr>)) =
     [[(''Transaction ID'', VStr ''T1''), (''Produce'', VStr ''FALSE''), (''Note'', VStr [])]] \<and>
   orders_cache (snd (update_cache plain_env True (Some [sheet_row])
      (snd (update_cache plain_env True (Some [sheet_row])
         \<lparr>orders_cache = [], cache_file = None\<rparr>)))) =
     [[(''Transaction ID'', VStr ''T1''), (''Produce'', VStr ''FALSE''), (''Note'', VStr []),
       (''Kesildi'', VStr ''FALSE''), (''importantnote'', VStr [])]] \<and>
   snd (update_cache plain_env True (Some [sheet_row])
      (snd (update_cache plain_env True (Some [sheet_row])
         \<lparr>orders_cache = [], cache_file = None\<rparr>))) \<noteq>
   snd (update_cache plain_env True (Some [sheet_row])
      \<lparr>orders_cache = [], cache_file = None\<rparr>)"
  by code_simp

end
